theory Spec2Isabelle
  imports Main "HOL-Library.Word"
begin

section \<open>The platform: bytes, numbers, strings and DataView\<close>

text \<open>
  The class \<open>ByteBuf\<close> keeps two indices and a \<open>DataView\<close> over an \<open>ArrayBuffer\<close>.
  A byte is an \<open>8 word\<close>; the buffer is the list of its bytes. The numbers the class
  computes with (indices, the integers it writes and reads) are taken integer-valued and
  are \<open>int\<close> here, a \<open>bigint\<close> too; JavaScript adds integers exactly below
  \<open>2^53\<close>, beyond any index of a buffer. A JavaScript string is the list of its
  16-bit code units, so \<open>s.length\<close> is the length of the list and
  \<open>s.charCodeAt(i)\<close>, for \<open>i\<close> below the length (the class asks for no other),
  its \<open>i\<close>-th element read as a number.
\<close>

type_synonym byte = "8 word"
type_synonym jsstring = "16 word list"

datatype error = RangeError

text \<open>
  \<open>DataView\<close> stores an integer of \<open>k\<close> bytes as the \<open>k\<close> low bytes of its
  two's complement, most significant first (the class never passes \<open>littleEndian\<close>),
  and reads it back from the unsigned value of the bytes.
\<close>

fun be_bytes :: "nat \<Rightarrow> int \<Rightarrow> byte list" where
  "be_bytes 0 v = []"
| "be_bytes (Suc k) v = be_bytes k (v div 256) @ [word_of_int v]"

definition be_val :: "byte list \<Rightarrow> int" where
  "be_val bs = foldl (\<lambda>a b. a * 256 + uint b) 0 bs"

definition to_signed :: "nat \<Rightarrow> int \<Rightarrow> int" where
  "to_signed k u = (if u < 2 ^ (8 * k - 1) then u else u - 2 ^ (8 * k))"

text \<open>
  Every accessor of a \<open>DataView\<close> checks its range first: the index must not be
  negative, and the element must end inside the view; otherwise it throws a
  \<open>RangeError\<close>. (An \<open>ArrayBuffer\<close> has at most \<open>2^53 - 1\<close> bytes, so an index
  inside the view is also below the limit of \<open>ToIndex\<close>.)
\<close>

definition overwrite :: "byte list \<Rightarrow> nat \<Rightarrow> byte list \<Rightarrow> byte list" where
  "overwrite d i bs = take i d @ bs @ drop (i + length bs) d"

definition GetViewValue :: "byte list \<Rightarrow> int \<Rightarrow> nat \<Rightarrow> error + byte list" where
  "GetViewValue d i k =
     (if 0 \<le> i \<and> i + int k \<le> int (length d)
      then Inr (take k (drop (nat i) d)) else Inl RangeError)"

definition SetViewValue :: "byte list \<Rightarrow> int \<Rightarrow> byte list \<Rightarrow> error + byte list" where
  "SetViewValue d i bs =
     (if 0 \<le> i \<and> i + int (length bs) \<le> int (length d)
      then Inr (overwrite d (nat i) bs) else Inl RangeError)"

definition getInt :: "nat \<Rightarrow> byte list \<Rightarrow> int \<Rightarrow> error + int" where
  "getInt k d i =
     (case GetViewValue d i k of Inl e \<Rightarrow> Inl e | Inr bs \<Rightarrow> Inr (to_signed k (be_val bs)))"

definition getInt8 :: "byte list \<Rightarrow> int \<Rightarrow> error + int" where
  "getInt8 = getInt 1"

definition getInt16 :: "byte list \<Rightarrow> int \<Rightarrow> error + int" where
  "getInt16 = getInt 2"

definition getInt32 :: "byte list \<Rightarrow> int \<Rightarrow> error + int" where
  "getInt32 = getInt 4"

definition getBigInt64 :: "byte list \<Rightarrow> int \<Rightarrow> error + int" where
  "getBigInt64 = getInt 8"

definition getUint8 :: "byte list \<Rightarrow> int \<Rightarrow> error + int" where
  "getUint8 d i =
     (case GetViewValue d i 1 of Inl e \<Rightarrow> Inl e | Inr bs \<Rightarrow> Inr (be_val bs))"

definition setInt8 :: "byte list \<Rightarrow> int \<Rightarrow> int \<Rightarrow> error + byte list" where
  "setInt8 d i v = SetViewValue d i (be_bytes 1 v)"

definition setInt16 :: "byte list \<Rightarrow> int \<Rightarrow> int \<Rightarrow> error + byte list" where
  "setInt16 d i v = SetViewValue d i (be_bytes 2 v)"

definition setInt32 :: "byte list \<Rightarrow> int \<Rightarrow> int \<Rightarrow> error + byte list" where
  "setInt32 d i v = SetViewValue d i (be_bytes 4 v)"

definition setBigInt64 :: "byte list \<Rightarrow> int \<Rightarrow> int \<Rightarrow> error + byte list" where
  "setBigInt64 d i v = SetViewValue d i (be_bytes 8 v)"

text \<open>
  The IEEE-754 single-precision coding of a number is the platform's and is not
  modelled: \<open>enc\<close> gives the 32-bit pattern of a number and \<open>dec\<close> the number of a
  pattern, both parameters. What the class adds, four bytes at an index, is modelled.
\<close>

definition getFloat32 :: "(int \<Rightarrow> 'f) \<Rightarrow> byte list \<Rightarrow> int \<Rightarrow> error + 'f" where
  "getFloat32 dec d i =
     (case GetViewValue d i 4 of Inl e \<Rightarrow> Inl e | Inr bs \<Rightarrow> Inr (dec (be_val bs)))"

definition setFloat32 :: "('f \<Rightarrow> int) \<Rightarrow> byte list \<Rightarrow> int \<Rightarrow> 'f \<Rightarrow> error + byte list" where
  "setFloat32 enc d i f = SetViewValue d i (be_bytes 4 (enc f))"

definition charCodeAt :: "jsstring \<Rightarrow> nat \<Rightarrow> int" where
  "charCodeAt s i = uint (s ! i)"

definition fromCharCode :: "int \<Rightarrow> 16 word" where
  "fromCharCode c = word_of_int c"

text \<open>
  A string literal: the JavaScript string of a HOL string, one code unit per character.
\<close>

definition js :: "string \<Rightarrow> jsstring" where
  "js cs = map of_char cs"

section \<open>The class ByteBuf\<close>

record Uint8Array =
  buffer :: "byte list"
  byteOffset :: nat
  byteLength :: nat

record ByteBuf =
  readerIndex :: int
  writerIndex :: int
  data :: "byte list"

text \<open>The constructor views the whole \<open>ArrayBuffer\<close> under the array it is given.\<close>

definition constructor :: "Uint8Array \<Rightarrow> ByteBuf" where
  "constructor arr = \<lparr>readerIndex = 0, writerIndex = 0, data = buffer arr\<rparr>"

definition emptyBuffer :: "int \<Rightarrow> error + ByteBuf" where
  "emptyBuffer sz =
     (if sz < 0 then Inl RangeError
      else Inr (constructor
        \<lparr>buffer = replicate (nat sz) 0, byteOffset = 0, byteLength = nat sz\<rparr>))"

definition from_uint8 :: "Uint8Array \<Rightarrow> ByteBuf" where
  "from_uint8 arr = constructor arr"

definition from_buffer :: "byte list \<Rightarrow> ByteBuf" where
  "from_buffer buf = constructor \<lparr>buffer = buf, byteOffset = 0, byteLength = length buf\<rparr>"

text \<open>
  A method returns what it returns or the error it throws, and the object as the call
  leaves it. The readers move \<open>readerIndex\<close> before they touch the view, so a reader
  that throws has moved it; the writers touch the view first.

  The two indices are JavaScript numbers, and \<open>+=\<close> on them is the addition of
  binary64: exact as long as the operands and the sum are safe integers (of magnitude at
  most \<open>2^53 - 1\<close>), rounded beyond. The methods below add as \<open>int\<close> does, so they
  are the methods of the class on safe integers only. An index inside a buffer is one;
  the setters and the skips can store any number, and what is proved of an index that
  the storage does not bound says that it is safe.
\<close>

definition isSafeInteger :: "int \<Rightarrow> bool" where
  "isSafeInteger x = (- (2 ^ 53 - 1) \<le> x \<and> x \<le> 2 ^ 53 - 1)"

definition readBool :: "ByteBuf \<Rightarrow> (error + bool) \<times> ByteBuf" where
  "readBool b =
     (let b1 = b\<lparr>readerIndex := readerIndex b + 1\<rparr> in
      case getInt8 (data b1) (readerIndex b1 - 1) of
        Inl e \<Rightarrow> (Inl e, b1)
      | Inr v \<Rightarrow> (Inr (v = 1), b1))"

definition readByteSigned :: "ByteBuf \<Rightarrow> (error + int) \<times> ByteBuf" where
  "readByteSigned b =
     (let b1 = b\<lparr>readerIndex := readerIndex b + 1\<rparr> in
      case getInt8 (data b1) (readerIndex b1 - 1) of
        Inl e \<Rightarrow> (Inl e, b1)
      | Inr v \<Rightarrow> (Inr v, b1))"

definition readByteUnsigned :: "ByteBuf \<Rightarrow> (error + int) \<times> ByteBuf" where
  "readByteUnsigned b =
     (let b1 = b\<lparr>readerIndex := readerIndex b + 1\<rparr> in
      case getInt8 (data b1) (readerIndex b1 - 1) of
        Inl e \<Rightarrow> (Inl e, b1)
      | Inr v \<Rightarrow> (Inr (v + 128), b1))"

definition readShort :: "ByteBuf \<Rightarrow> (error + int) \<times> ByteBuf" where
  "readShort b =
     (let b1 = b\<lparr>readerIndex := readerIndex b + 2\<rparr> in
      case getInt16 (data b1) (readerIndex b1 - 2) of
        Inl e \<Rightarrow> (Inl e, b1)
      | Inr v \<Rightarrow> (Inr v, b1))"

definition readFloat :: "(int \<Rightarrow> 'f) \<Rightarrow> ByteBuf \<Rightarrow> (error + 'f) \<times> ByteBuf" where
  "readFloat dec b =
     (let b1 = b\<lparr>readerIndex := readerIndex b + 4\<rparr> in
      case getFloat32 dec (data b1) (readerIndex b1 - 4) of
        Inl e \<Rightarrow> (Inl e, b1)
      | Inr v \<Rightarrow> (Inr v, b1))"

definition readInt :: "ByteBuf \<Rightarrow> (error + int) \<times> ByteBuf" where
  "readInt b =
     (let b1 = b\<lparr>readerIndex := readerIndex b + 4\<rparr> in
      case getInt32 (data b1) (readerIndex b1 - 4) of
        Inl e \<Rightarrow> (Inl e, b1)
      | Inr v \<Rightarrow> (Inr v, b1))"

definition readLong :: "ByteBuf \<Rightarrow> (error + int) \<times> ByteBuf" where
  "readLong b =
     (let b1 = b\<lparr>readerIndex := readerIndex b + 8\<rparr> in
      case getBigInt64 (data b1) (readerIndex b1 - 8) of
        Inl e \<Rightarrow> (Inl e, b1)
      | Inr v \<Rightarrow> (Inr v, b1))"

text \<open>
  The loop of \<open>readByteString\<close>: \<open>for (let i = 0; i < n; i++)\<close>, appending one
  character per byte; it reads and does not change the object.
\<close>

function readLoop :: "ByteBuf \<Rightarrow> int \<Rightarrow> int \<Rightarrow> jsstring \<Rightarrow> error + jsstring" where
  "readLoop b n i s =
     (if i < n then
        (case getUint8 (data b) (readerIndex b + i) of
           Inl e \<Rightarrow> Inl e
         | Inr c \<Rightarrow> readLoop b n (i + 1) (s @ [fromCharCode c]))
      else Inr s)"
  by pat_completeness auto
termination
  by (relation "measure (\<lambda>(b, n, i, s). nat (n - i))") auto

definition readByteString :: "ByteBuf \<Rightarrow> (error + jsstring) \<times> ByteBuf" where
  "readByteString b =
     (case readInt b of
        (Inl e, b1) \<Rightarrow> (Inl e, b1)
      | (Inr n, b1) \<Rightarrow>
          (case readLoop b1 n 0 [] of
             Inl e \<Rightarrow> (Inl e, b1)
           | Inr s \<Rightarrow> (Inr s, b1\<lparr>readerIndex := readerIndex b1 + n\<rparr>)))"

definition writeBool :: "ByteBuf \<Rightarrow> bool \<Rightarrow> (error + unit) \<times> ByteBuf" where
  "writeBool b v =
     (case setInt8 (data b) (writerIndex b) (if v then 1 else 0) of
        Inl e \<Rightarrow> (Inl e, b)
      | Inr d \<Rightarrow> (Inr (), b\<lparr>data := d, writerIndex := writerIndex b + 1\<rparr>))"

definition writeByteSigned :: "ByteBuf \<Rightarrow> int \<Rightarrow> (error + unit) \<times> ByteBuf" where
  "writeByteSigned b v =
     (case setInt8 (data b) (writerIndex b) v of
        Inl e \<Rightarrow> (Inl e, b)
      | Inr d \<Rightarrow> (Inr (), b\<lparr>data := d, writerIndex := writerIndex b + 1\<rparr>))"

definition writeByteUnsigned :: "ByteBuf \<Rightarrow> int \<Rightarrow> (error + unit) \<times> ByteBuf" where
  "writeByteUnsigned b v =
     (case setInt8 (data b) (writerIndex b) (v - 128) of
        Inl e \<Rightarrow> (Inl e, b)
      | Inr d \<Rightarrow> (Inr (), b\<lparr>data := d, writerIndex := writerIndex b + 1\<rparr>))"

definition writeShort :: "ByteBuf \<Rightarrow> int \<Rightarrow> (error + unit) \<times> ByteBuf" where
  "writeShort b v =
     (case setInt16 (data b) (writerIndex b) v of
        Inl e \<Rightarrow> (Inl e, b)
      | Inr d \<Rightarrow> (Inr (), b\<lparr>data := d, writerIndex := writerIndex b + 2\<rparr>))"

definition writeFloat :: "('f \<Rightarrow> int) \<Rightarrow> ByteBuf \<Rightarrow> 'f \<Rightarrow> (error + unit) \<times> ByteBuf" where
  "writeFloat enc b f =
     (case setFloat32 enc (data b) (writerIndex b) f of
        Inl e \<Rightarrow> (Inl e, b)
      | Inr d \<Rightarrow> (Inr (), b\<lparr>data := d, writerIndex := writerIndex b + 4\<rparr>))"

definition writeInt :: "ByteBuf \<Rightarrow> int \<Rightarrow> (error + unit) \<times> ByteBuf" where
  "writeInt b v =
     (case setInt32 (data b) (writerIndex b) v of
        Inl e \<Rightarrow> (Inl e, b)
      | Inr d \<Rightarrow> (Inr (), b\<lparr>data := d, writerIndex := writerIndex b + 4\<rparr>))"

definition writeLong :: "ByteBuf \<Rightarrow> int \<Rightarrow> (error + unit) \<times> ByteBuf" where
  "writeLong b v =
     (case setBigInt64 (data b) (writerIndex b) v of
        Inl e \<Rightarrow> (Inl e, b)
      | Inr d \<Rightarrow> (Inr (), b\<lparr>data := d, writerIndex := writerIndex b + 8\<rparr>))"

text \<open>
  The loop of \<open>writeByteString\<close>: \<open>for (let i = 0; i < s.length; i++)\<close>, one
  \<open>writeByteSigned\<close> per code unit; a write that throws ends it, and the bytes written
  before stay written.
\<close>

function writeLoop :: "ByteBuf \<Rightarrow> jsstring \<Rightarrow> nat \<Rightarrow> (error + unit) \<times> ByteBuf" where
  "writeLoop b s i =
     (if i < length s then
        (case writeByteSigned b (charCodeAt s i) of
           (Inl e, b1) \<Rightarrow> (Inl e, b1)
         | (Inr u, b1) \<Rightarrow> writeLoop b1 s (i + 1))
      else (Inr (), b))"
  by pat_completeness auto
termination
  by (relation "measure (\<lambda>(b, s, i). length s - i)") auto

definition writeByteString :: "ByteBuf \<Rightarrow> jsstring \<Rightarrow> (error + unit) \<times> ByteBuf" where
  "writeByteString b s =
     (case writeInt b (int (length s)) of
        (Inl e, b1) \<Rightarrow> (Inl e, b1)
      | (Inr u, b1) \<Rightarrow> writeLoop b1 s 0)"

definition getReaderIndex :: "ByteBuf \<Rightarrow> int" where
  "getReaderIndex b = readerIndex b"

definition getWriterIndex :: "ByteBuf \<Rightarrow> int" where
  "getWriterIndex b = writerIndex b"

definition setReaderIndex :: "ByteBuf \<Rightarrow> int \<Rightarrow> ByteBuf" where
  "setReaderIndex b i = b\<lparr>readerIndex := i\<rparr>"

definition setWriterIndex :: "ByteBuf \<Rightarrow> int \<Rightarrow> ByteBuf" where
  "setWriterIndex b i = b\<lparr>writerIndex := i\<rparr>"

definition skipReader :: "ByteBuf \<Rightarrow> int \<Rightarrow> ByteBuf" where
  "skipReader b s = b\<lparr>readerIndex := readerIndex b + s\<rparr>"

definition skipWriter :: "ByteBuf \<Rightarrow> int \<Rightarrow> ByteBuf" where
  "skipWriter b s = b\<lparr>writerIndex := writerIndex b + s\<rparr>"

definition bytes :: "ByteBuf \<Rightarrow> byte list" where
  "bytes b = data b"

text \<open>The storage holds \<open>k\<close> bytes at index \<open>i\<close>.\<close>

definition fits :: "ByteBuf \<Rightarrow> int \<Rightarrow> nat \<Rightarrow> bool" where
  "fits b i k = (0 \<le> i \<and> i + int k \<le> int (length (data b)))"

section \<open>Sequences of calls\<close>

text \<open>
  A call of a public method with its arguments, and the object it leaves behind, whether
  it returned or threw (a caller may catch the error and go on).
\<close>

datatype 'f call =
    ReadBool | ReadByteSigned | ReadByteUnsigned | ReadShort | ReadFloat | ReadInt | ReadLong
  | ReadByteString
  | WriteBool bool | WriteByteSigned int | WriteByteUnsigned int | WriteShort int
  | WriteFloat 'f | WriteInt int | WriteLong int | WriteByteString jsstring
  | GetReaderIndex | GetWriterIndex | SetReaderIndex int | SetWriterIndex int
  | SkipReader int | SkipWriter int | Bytes

fun perform :: "('f \<Rightarrow> int) \<Rightarrow> (int \<Rightarrow> 'f) \<Rightarrow> 'f call \<Rightarrow> ByteBuf \<Rightarrow> ByteBuf" where
  "perform enc dec ReadBool b = snd (readBool b)"
| "perform enc dec ReadByteSigned b = snd (readByteSigned b)"
| "perform enc dec ReadByteUnsigned b = snd (readByteUnsigned b)"
| "perform enc dec ReadShort b = snd (readShort b)"
| "perform enc dec ReadFloat b = snd (readFloat dec b)"
| "perform enc dec ReadInt b = snd (readInt b)"
| "perform enc dec ReadLong b = snd (readLong b)"
| "perform enc dec ReadByteString b = snd (readByteString b)"
| "perform enc dec (WriteBool v) b = snd (writeBool b v)"
| "perform enc dec (WriteByteSigned v) b = snd (writeByteSigned b v)"
| "perform enc dec (WriteByteUnsigned v) b = snd (writeByteUnsigned b v)"
| "perform enc dec (WriteShort v) b = snd (writeShort b v)"
| "perform enc dec (WriteFloat f) b = snd (writeFloat enc b f)"
| "perform enc dec (WriteInt v) b = snd (writeInt b v)"
| "perform enc dec (WriteLong v) b = snd (writeLong b v)"
| "perform enc dec (WriteByteString s) b = snd (writeByteString b s)"
| "perform enc dec GetReaderIndex b = b"
| "perform enc dec GetWriterIndex b = b"
| "perform enc dec (SetReaderIndex i) b = setReaderIndex b i"
| "perform enc dec (SetWriterIndex i) b = setWriterIndex b i"
| "perform enc dec (SkipReader n) b = skipReader b n"
| "perform enc dec (SkipWriter n) b = skipWriter b n"
| "perform enc dec Bytes b = b"

fun run :: "('f \<Rightarrow> int) \<Rightarrow> (int \<Rightarrow> 'f) \<Rightarrow> 'f call list \<Rightarrow> ByteBuf \<Rightarrow> ByteBuf" where
  "run enc dec [] b = b"
| "run enc dec (c # cs) b = run enc dec cs (perform enc dec c b)"

definition cursors_nonneg :: "ByteBuf \<Rightarrow> bool" where
  "cursors_nonneg b = (0 \<le> readerIndex b \<and> 0 \<le> writerIndex b)"

text \<open>
  The calls that can take a cursor below zero are the two setters, the two skips and
  \<open>readByteString\<close> on a negative length; \<open>keeps_nonneg c b\<close> says that the call
  \<open>c\<close> on the object \<open>b\<close> is not such a step.
\<close>

fun keeps_nonneg :: "'f call \<Rightarrow> ByteBuf \<Rightarrow> bool" where
  "keeps_nonneg (SetReaderIndex i) b = (0 \<le> i)"
| "keeps_nonneg (SetWriterIndex i) b = (0 \<le> i)"
| "keeps_nonneg (SkipReader n) b = (0 \<le> readerIndex b + n)"
| "keeps_nonneg (SkipWriter n) b = (0 \<le> writerIndex b + n)"
| "keeps_nonneg ReadByteString b =
     (case getInt32 (data b) (readerIndex b) of
        Inl e \<Rightarrow> True
      | Inr n \<Rightarrow> 0 \<le> readerIndex b + 4 + n)"
| "keeps_nonneg c b = True"

text \<open>
  \<open>exact_call c b\<close> says that the numbers the call \<open>c\<close> computes with on the object
  \<open>b\<close> are safe integers: the cursors it leaves, the argument of a skip, and the
  read cursor behind the length that \<open>readByteString\<close> reads (the cursors in between
  lie between these). On such a call the class adds as the model does.
\<close>

definition safe_cursors :: "ByteBuf \<Rightarrow> bool" where
  "safe_cursors b = (isSafeInteger (readerIndex b) \<and> isSafeInteger (writerIndex b))"

fun exact_call :: "('f \<Rightarrow> int) \<Rightarrow> (int \<Rightarrow> 'f) \<Rightarrow> 'f call \<Rightarrow> ByteBuf \<Rightarrow> bool" where
  "exact_call enc dec ReadByteString b =
     (isSafeInteger (readerIndex b + 4) \<and> safe_cursors (perform enc dec ReadByteString b))"
| "exact_call enc dec (SkipReader n) b =
     (isSafeInteger n \<and> safe_cursors (perform enc dec (SkipReader n) b))"
| "exact_call enc dec (SkipWriter n) b =
     (isSafeInteger n \<and> safe_cursors (perform enc dec (SkipWriter n) b))"
| "exact_call enc dec c b = safe_cursors (perform enc dec c b)"

fun admissible ::
  "('f \<Rightarrow> int) \<Rightarrow> (int \<Rightarrow> 'f) \<Rightarrow> 'f call list \<Rightarrow> ByteBuf \<Rightarrow> bool" where
  "admissible enc dec [] b = True"
| "admissible enc dec (c # cs) b =
     (keeps_nonneg c b \<and> exact_call enc dec c b \<and>
      admissible enc dec cs (perform enc dec c b))"

declare readLoop.simps [simp del] writeLoop.simps [simp del]

section \<open>Big-endian integers\<close>

lemma be_val_snoc: "be_val (bs @ [x]) = be_val bs * 256 + uint x"
  by (simp add: be_val_def)

lemma length_be_bytes [simp]: "length (be_bytes k v) = k"
  by (induction k arbitrary: v) simp_all

lemma be_val_be_bytes: "be_val (be_bytes k v) = v mod 2 ^ (8 * k)"
proof (induction k arbitrary: v)
  case 0
  show ?case by (simp add: be_val_def)
next
  case (Suc k)
  have "be_val (be_bytes (Suc k) v) = (v div 256) mod 2 ^ (8 * k) * 256 + v mod 256"
    by (simp add: be_val_snoc Suc.IH uint_word_of_int)
  also have "\<dots> = v mod (256 * 2 ^ (8 * k))"
    using zmod_zmult2_eq [of "2 ^ (8 * k)" v 256] by simp
  also have "(256 :: int) * 2 ^ (8 * k) = 2 ^ (8 * Suc k)"
    by (simp add: power_add)
  finally show ?case .
qed

lemma to_signed_mod:
  assumes "0 < k" and "- (2 ^ (8 * k - 1)) \<le> v" and "v < 2 ^ (8 * k - 1)"
  shows "to_signed k (v mod 2 ^ (8 * k)) = v"
proof -
  have "8 * k = Suc (8 * k - 1)"
    using assms(1) by simp
  then have "(2 :: int) ^ (8 * k) = 2 ^ Suc (8 * k - 1)"
    by (rule arg_cong)
  then have double: "(2 :: int) ^ (8 * k) = 2 * 2 ^ (8 * k - 1)"
    by simp
  show ?thesis
  proof (cases "0 \<le> v")
    case True
    then have "v mod 2 ^ (8 * k) = v"
      using assms(3) double by simp
    then show ?thesis
      using assms(3) by (simp add: to_signed_def)
  next
    case False
    then have "(v + 2 ^ (8 * k)) mod 2 ^ (8 * k) = v + 2 ^ (8 * k)"
      using assms(2) double by (intro mod_pos_pos_trivial) simp_all
    then have "v mod 2 ^ (8 * k) = v + 2 ^ (8 * k)"
      by simp
    then show ?thesis
      using False double assms(2) by (simp add: to_signed_def)
  qed
qed

section \<open>Access to the view\<close>

lemma length_overwrite [simp]:
  "i + length bs \<le> length d \<Longrightarrow> length (overwrite d i bs) = length d"
  by (simp add: overwrite_def)

lemma take_drop_overwrite [simp]:
  "i + length bs \<le> length d \<Longrightarrow> take (length bs) (drop i (overwrite d i bs)) = bs"
  by (simp add: overwrite_def)

lemma nth_overwrite:
  "i + length bs \<le> length d \<Longrightarrow> j < length bs \<Longrightarrow> overwrite d i bs ! (i + j) = bs ! j"
  by (simp add: overwrite_def nth_append)

lemma overwrite_adjacent:
  "i + length xs + length ys \<le> length d \<Longrightarrow>
   overwrite (overwrite d i xs) (i + length xs) ys = overwrite d i (xs @ ys)"
  by (simp add: overwrite_def ac_simps)

lemma SetViewValue_fits:
  "0 \<le> i \<Longrightarrow> i + int (length bs) \<le> int (length d) \<Longrightarrow>
   SetViewValue d i bs = Inr (overwrite d (nat i) bs)"
  by (simp add: SetViewValue_def)

lemma GetViewValue_overwrite:
  assumes "0 \<le> i" and "i + int (length bs) \<le> int (length d)"
  shows "GetViewValue (overwrite d (nat i) bs) i (length bs) = Inr bs"
proof -
  have "nat i + length bs \<le> length d"
    using assms by linarith
  then show ?thesis
    using assms by (simp add: GetViewValue_def)
qed

lemma getInt_overwrite:
  assumes "0 \<le> i" and "i + int k \<le> int (length d)"
    and "0 < k" and "- (2 ^ (8 * k - 1)) \<le> v" and "v < 2 ^ (8 * k - 1)"
  shows "getInt k (overwrite d (nat i) (be_bytes k v)) i = Inr v"
  using GetViewValue_overwrite [of i "be_bytes k v" d] assms
  by (simp add: getInt_def be_val_be_bytes to_signed_mod)

lemmas write_defs = writeBool_def writeByteSigned_def writeByteUnsigned_def writeShort_def
  writeFloat_def writeInt_def writeLong_def setInt8_def setInt16_def setInt32_def
  setBigInt64_def setFloat32_def

lemmas read_defs = readBool_def readByteSigned_def readByteUnsigned_def readShort_def
  readFloat_def readInt_def readLong_def getInt8_def getInt16_def getInt32_def
  getBigInt64_def getFloat32_def

section \<open>Fixed-width values: write, then read\<close>

lemma rt_bool:
  assumes "fits b P 1"
  shows "fst (writeBool (setWriterIndex b P) x) = Inr () \<and>
     fst (readBool (setReaderIndex (snd (writeBool (setWriterIndex b P) x)) P)) = Inr x"
  using assms getInt_overwrite [of P 1 "data b" "if x then 1 else 0"]
  by (simp add: write_defs read_defs setWriterIndex_def setReaderIndex_def fits_def SetViewValue_fits)

lemma rt_int8:
  assumes "fits b P 1" and "- 128 \<le> v" and "v \<le> 127"
  shows "fst (writeByteSigned (setWriterIndex b P) v) = Inr () \<and>
     fst (readByteSigned (setReaderIndex (snd (writeByteSigned (setWriterIndex b P) v)) P)) = Inr v"
  using assms getInt_overwrite [of P 1 "data b" v]
  by (simp add: write_defs read_defs setWriterIndex_def setReaderIndex_def fits_def SetViewValue_fits)

lemma rt_int16:
  assumes "fits b P 2" and "- 32768 \<le> v" and "v \<le> 32767"
  shows "fst (writeShort (setWriterIndex b P) v) = Inr () \<and>
     fst (readShort (setReaderIndex (snd (writeShort (setWriterIndex b P) v)) P)) = Inr v"
  using assms getInt_overwrite [of P 2 "data b" v]
  by (simp add: write_defs read_defs setWriterIndex_def setReaderIndex_def fits_def SetViewValue_fits)

lemma rt_int32:
  assumes "fits b P 4" and "- 2147483648 \<le> v" and "v \<le> 2147483647"
  shows "fst (writeInt (setWriterIndex b P) v) = Inr () \<and>
     fst (readInt (setReaderIndex (snd (writeInt (setWriterIndex b P) v)) P)) = Inr v"
  using assms getInt_overwrite [of P 4 "data b" v]
  by (simp add: write_defs read_defs setWriterIndex_def setReaderIndex_def fits_def SetViewValue_fits)

lemma rt_int64:
  assumes "fits b P 8" and "- 9223372036854775808 \<le> v" and "v \<le> 9223372036854775807"
  shows "fst (writeLong (setWriterIndex b P) v) = Inr () \<and>
     fst (readLong (setReaderIndex (snd (writeLong (setWriterIndex b P) v)) P)) = Inr v"
  using assms getInt_overwrite [of P 8 "data b" v]
  by (simp add: write_defs read_defs setWriterIndex_def setReaderIndex_def fits_def SetViewValue_fits)

text \<open>
  Claim C1. For each of the pairs \<open>writeBool\<close>/\<open>readBool\<close>,
  \<open>writeByteSigned\<close>/\<open>readByteSigned\<close>, \<open>writeShort\<close>/\<open>readShort\<close>,
  \<open>writeInt\<close>/\<open>readInt\<close> and \<open>writeLong\<close>/\<open>readLong\<close>, for every value of the
  type (both booleans, \<open>-128..127\<close>, and the full 16-, 32- and 64-bit signed ranges)
  and every position \<open>P\<close> at which the storage holds the bytes of the type: the write
  with the write cursor at \<open>P\<close> returns, and the read with the read cursor at \<open>P\<close>
  that follows it returns the value written.
\<close>

theorem roundtrip_fixed_width:
  "(fits b P 1 \<longrightarrow>
      fst (writeBool (setWriterIndex b P) x) = Inr () \<and>
      fst (readBool (setReaderIndex (snd (writeBool (setWriterIndex b P) x)) P)) = Inr x) \<and>
   (fits b P 1 \<and> - 128 \<le> v8 \<and> v8 \<le> 127 \<longrightarrow>
      fst (writeByteSigned (setWriterIndex b P) v8) = Inr () \<and>
      fst (readByteSigned (setReaderIndex (snd (writeByteSigned (setWriterIndex b P) v8)) P))
        = Inr v8) \<and>
   (fits b P 2 \<and> - 32768 \<le> v16 \<and> v16 \<le> 32767 \<longrightarrow>
      fst (writeShort (setWriterIndex b P) v16) = Inr () \<and>
      fst (readShort (setReaderIndex (snd (writeShort (setWriterIndex b P) v16)) P))
        = Inr v16) \<and>
   (fits b P 4 \<and> - 2147483648 \<le> v32 \<and> v32 \<le> 2147483647 \<longrightarrow>
      fst (writeInt (setWriterIndex b P) v32) = Inr () \<and>
      fst (readInt (setReaderIndex (snd (writeInt (setWriterIndex b P) v32)) P))
        = Inr v32) \<and>
   (fits b P 8 \<and> - 9223372036854775808 \<le> v64 \<and> v64 \<le> 9223372036854775807 \<longrightarrow>
      fst (writeLong (setWriterIndex b P) v64) = Inr () \<and>
      fst (readLong (setReaderIndex (snd (writeLong (setWriterIndex b P) v64)) P))
        = Inr v64)"
  using rt_bool [of b P x] rt_int8 [of b P v8] rt_int16 [of b P v16] rt_int32 [of b P v32]
    rt_int64 [of b P v64]
  by blast

theorem roundtrip_fixed_width_witness:
  "fits (from_buffer [9, 9, 9, 9, 9, 9, 9, 9, 9, 9, 9, 9]) 3 8 \<and>
   fits (from_buffer [9, 9, 9, 9, 9, 9, 9, 9, 9, 9, 9, 9]) 3 4 \<and>
   fits (from_buffer [9, 9, 9, 9, 9, 9, 9, 9, 9, 9, 9, 9]) 3 2 \<and>
   fits (from_buffer [9, 9, 9, 9, 9, 9, 9, 9, 9, 9, 9, 9]) 3 1 \<and>
   fst (readBool (setReaderIndex (snd (writeBool
     (setWriterIndex (from_buffer [9, 9, 9, 9, 9, 9, 9, 9, 9, 9, 9, 9]) 3) True)) 3)) = Inr True \<and>
   fst (readByteSigned (setReaderIndex (snd (writeByteSigned
     (setWriterIndex (from_buffer [9, 9, 9, 9, 9, 9, 9, 9, 9, 9, 9, 9]) 3) (- 128))) 3))
       = Inr (- 128) \<and>
   fst (readShort (setReaderIndex (snd (writeShort
     (setWriterIndex (from_buffer [9, 9, 9, 9, 9, 9, 9, 9, 9, 9, 9, 9]) 3) (- 2))) 3))
       = Inr (- 2) \<and>
   fst (readInt (setReaderIndex (snd (writeInt
     (setWriterIndex (from_buffer [9, 9, 9, 9, 9, 9, 9, 9, 9, 9, 9, 9]) 3) 2147483647)) 3))
       = Inr 2147483647 \<and>
   fst (readLong (setReaderIndex (snd (writeLong
     (setWriterIndex (from_buffer [9, 9, 9, 9, 9, 9, 9, 9, 9, 9, 9, 9]) 3)
       (- 9223372036854775808))) 3))
       = Inr (- 9223372036854775808)"
proof -
  have f: "fits (from_buffer [9, 9, 9, 9, 9, 9, 9, 9, 9, 9, 9, 9]) 3 8"
    "fits (from_buffer [9, 9, 9, 9, 9, 9, 9, 9, 9, 9, 9, 9]) 3 4"
    "fits (from_buffer [9, 9, 9, 9, 9, 9, 9, 9, 9, 9, 9, 9]) 3 2"
    "fits (from_buffer [9, 9, 9, 9, 9, 9, 9, 9, 9, 9, 9, 9]) 3 1"
    by (simp_all add: fits_def from_buffer_def constructor_def)
  show ?thesis
    using f roundtrip_fixed_width [of "from_buffer [9, 9, 9, 9, 9, 9, 9, 9, 9, 9, 9, 9]" 3
      True "- 128" "- 2" 2147483647 "- 9223372036854775808"]
    by simp
qed


section \<open>Single bytes\<close>

lemma overwrite_single: "i < length d \<Longrightarrow> overwrite d i [x] = d[i := x]"
  by (simp add: overwrite_def upd_conv_take_nth_drop)

lemma be_bytes_1: "be_bytes 1 v = [word_of_int v]"
  by (simp add: numeral_eq_Suc)

lemma be_val_single: "be_val [x] = uint x"
  by (simp add: be_val_def)

lemma uint_byte_bounds: "0 \<le> uint (x :: byte) \<and> uint x < 256"
  using uint_bounded [of x] by simp

lemma to_signed_1_eq_1: "to_signed 1 (uint (x :: byte)) = 1 \<longleftrightarrow> x = 1"
proof -
  have "uint x = 1 \<longleftrightarrow> x = 1"
    by (simp add: word_uint_eq_iff)
  then show ?thesis
    using uint_byte_bounds [of x] by (auto simp: to_signed_def)
qed

lemma sint_byte_of_int: "- 128 \<le> v \<Longrightarrow> v \<le> 127 \<Longrightarrow> sint (word_of_int v :: byte) = v"
  by (simp add: int_word_sint)

lemma GetViewValue_1:
  "0 \<le> i \<Longrightarrow> i + 1 \<le> int (length d) \<Longrightarrow> GetViewValue d i 1 = Inr [d ! nat i]"
proof -
  assume a: "0 \<le> i" "i + 1 \<le> int (length d)"
  then have "nat i < length d" by linarith
  then have "take 1 (drop (nat i) d) = [d ! nat i]"
    by (simp add: take_Suc_conv_app_nth)
  then show ?thesis using a by (simp add: GetViewValue_def)
qed


text \<open>What each fixed-width call leaves behind.\<close>

lemma readBool_state: "snd (readBool b) = b\<lparr>readerIndex := readerIndex b + 1\<rparr>"
  by (simp add: readBool_def Let_def split: sum.splits)

lemma readByteSigned_state: "snd (readByteSigned b) = b\<lparr>readerIndex := readerIndex b + 1\<rparr>"
  by (simp add: readByteSigned_def Let_def split: sum.splits)

lemma readByteUnsigned_state:
  "snd (readByteUnsigned b) = b\<lparr>readerIndex := readerIndex b + 1\<rparr>"
  by (simp add: readByteUnsigned_def Let_def split: sum.splits)

lemma readShort_state: "snd (readShort b) = b\<lparr>readerIndex := readerIndex b + 2\<rparr>"
  by (simp add: readShort_def Let_def split: sum.splits)

lemma readFloat_state: "snd (readFloat dec b) = b\<lparr>readerIndex := readerIndex b + 4\<rparr>"
  by (simp add: readFloat_def Let_def split: sum.splits)

lemma readInt_state: "snd (readInt b) = b\<lparr>readerIndex := readerIndex b + 4\<rparr>"
  by (simp add: readInt_def Let_def split: sum.splits)

lemma readLong_state: "snd (readLong b) = b\<lparr>readerIndex := readerIndex b + 8\<rparr>"
  by (simp add: readLong_def Let_def split: sum.splits)

lemma writeBool_state:
  "snd (writeBool b v) =
     (if fits b (writerIndex b) 1
      then b\<lparr>data := overwrite (data b) (nat (writerIndex b)) (be_bytes 1 (if v then 1 else 0)),
             writerIndex := writerIndex b + 1\<rparr>
      else b)"
  by (simp add: writeBool_def setInt8_def SetViewValue_def fits_def)

lemma writeByteSigned_state:
  "snd (writeByteSigned b v) =
     (if fits b (writerIndex b) 1
      then b\<lparr>data := overwrite (data b) (nat (writerIndex b)) (be_bytes 1 v),
             writerIndex := writerIndex b + 1\<rparr>
      else b)"
  by (simp add: writeByteSigned_def setInt8_def SetViewValue_def fits_def)

lemma writeByteUnsigned_state:
  "snd (writeByteUnsigned b v) =
     (if fits b (writerIndex b) 1
      then b\<lparr>data := overwrite (data b) (nat (writerIndex b)) (be_bytes 1 (v - 128)),
             writerIndex := writerIndex b + 1\<rparr>
      else b)"
  by (simp add: writeByteUnsigned_def setInt8_def SetViewValue_def fits_def)

lemma writeShort_state:
  "snd (writeShort b v) =
     (if fits b (writerIndex b) 2
      then b\<lparr>data := overwrite (data b) (nat (writerIndex b)) (be_bytes 2 v),
             writerIndex := writerIndex b + 2\<rparr>
      else b)"
  by (simp add: writeShort_def setInt16_def SetViewValue_def fits_def)

lemma writeFloat_state:
  "snd (writeFloat enc b f) =
     (if fits b (writerIndex b) 4
      then b\<lparr>data := overwrite (data b) (nat (writerIndex b)) (be_bytes 4 (enc f)),
             writerIndex := writerIndex b + 4\<rparr>
      else b)"
  by (simp add: writeFloat_def setFloat32_def SetViewValue_def fits_def)

lemma writeInt_state:
  "snd (writeInt b v) =
     (if fits b (writerIndex b) 4
      then b\<lparr>data := overwrite (data b) (nat (writerIndex b)) (be_bytes 4 v),
             writerIndex := writerIndex b + 4\<rparr>
      else b)"
  by (simp add: writeInt_def setInt32_def SetViewValue_def fits_def)

lemma writeLong_state:
  "snd (writeLong b v) =
     (if fits b (writerIndex b) 8
      then b\<lparr>data := overwrite (data b) (nat (writerIndex b)) (be_bytes 8 v),
             writerIndex := writerIndex b + 8\<rparr>
      else b)"
  by (simp add: writeLong_def setBigInt64_def SetViewValue_def fits_def)

lemma writeInt_result:
  "fst (writeInt b v) = (if fits b (writerIndex b) 4 then Inr () else Inl RangeError)"
  by (simp add: writeInt_def setInt32_def SetViewValue_def fits_def)

lemma getInt8_fits:
  "0 \<le> i \<Longrightarrow> i + 1 \<le> int (length d) \<Longrightarrow>
   getInt8 d i = Inr (to_signed 1 (uint (d ! nat i)))"
  by (simp only: getInt8_def getInt_def GetViewValue_1 be_val_single sum.case)

lemma readBool_fits:
  "fits b (readerIndex b) 1 \<Longrightarrow> fst (readBool b) = Inr (data b ! nat (readerIndex b) = 1)"
  by (simp add: readBool_def fits_def getInt8_fits to_signed_1_eq_1 del: One_nat_def)

text \<open>
  Claim C2. For every \<open>v\<close> in \<open>0..255\<close> and every position \<open>P\<close> at which the
  storage holds a byte, \<open>writeByteUnsigned(v)\<close> with the write cursor at \<open>P\<close>
  returns, \<open>readByteUnsigned()\<close> with the read cursor at \<open>P\<close> then returns \<open>v\<close>,
  and the byte stored at \<open>P\<close>, read as a two's-complement signed byte, is \<open>v - 128\<close>.
\<close>

theorem roundtrip_uint8:
  assumes "fits b P 1" and "0 \<le> v" and "v \<le> 255"
  shows "fst (writeByteUnsigned (setWriterIndex b P) v) = Inr () \<and>
    fst (readByteUnsigned
          (setReaderIndex (snd (writeByteUnsigned (setWriterIndex b P) v)) P)) = Inr v \<and>
    sint (data (snd (writeByteUnsigned (setWriterIndex b P) v)) ! nat P) = v - 128"
proof -
  let ?w = "writeByteUnsigned (setWriterIndex b P) v"
  have room: "nat P < length (data b)" "0 \<le> P" "P + 1 \<le> int (length (data b))"
    using assms(1) unfolding fits_def by linarith+
  have ok: "fst ?w = Inr ()"
    using assms(1)
    by (simp add: writeByteUnsigned_def setInt8_def setWriterIndex_def fits_def SetViewValue_fits)
  have d: "data (snd ?w) = (data b)[nat P := word_of_int (v - 128)]"
    using assms(1) room(1)
    by (simp add: writeByteUnsigned_state setWriterIndex_def fits_def be_bytes_1 overwrite_single)
  have nth: "data (snd ?w) ! nat P = word_of_int (v - 128)"
    using room(1) by (simp add: d)
  have "sint (word_of_int (v - 128) :: byte) = v - 128"
  proof (rule sint_byte_of_int)
    show "- 128 \<le> v - 128" using assms(2) by simp
    show "v - 128 \<le> 127" using assms(3) by simp
  qed
  then have byte: "sint (data (snd ?w) ! nat P) = v - 128"
    by (simp only: nth)
  have "fst (readByteUnsigned (setReaderIndex (snd ?w) P)) = Inr v"
    using assms getInt_overwrite [of P 1 "data b" "v - 128"]
    by (simp add: writeByteUnsigned_def setInt8_def readByteUnsigned_def getInt8_def
        setWriterIndex_def setReaderIndex_def fits_def SetViewValue_fits)
  with ok byte show ?thesis by simp
qed

theorem roundtrip_uint8_witness:
  "fits (from_buffer [7, 7, 7, 7]) 2 1 \<and> (0 :: int) \<le> 255 \<and> (255 :: int) \<le> 255 \<and>
   fst (readByteUnsigned (setReaderIndex
     (snd (writeByteUnsigned (setWriterIndex (from_buffer [7, 7, 7, 7]) 2) 255)) 2)) = Inr 255 \<and>
   sint (data (snd (writeByteUnsigned (setWriterIndex (from_buffer [7, 7, 7, 7]) 2) 255)) ! nat 2)
     = 127"
proof -
  have f: "fits (from_buffer [7, 7, 7, 7]) 2 1"
    by (simp add: fits_def from_buffer_def constructor_def)
  show ?thesis
    using f roundtrip_uint8 [OF f, of 255] by simp
qed

text \<open>
  Claim C6. \<open>writeBool(true)\<close> stores the byte 1 and \<open>writeBool(false)\<close> the byte
  0, at the write cursor, and a \<open>writeBool\<close> that throws stores nothing: no other byte
  is ever written by it. \<open>readBool\<close> returns true exactly when the byte at the read
  cursor is 1, and false for every other byte.
\<close>

theorem bool_bytes:
  "data (snd (writeBool b v)) =
     (if fits b (writerIndex b) 1
      then (data b)[nat (writerIndex b) := (if v then 1 else 0)]
      else data b) \<and>
   (fits b (readerIndex b) 1 \<longrightarrow>
      fst (readBool b) = Inr (data b ! nat (readerIndex b) = 1))"
proof -
  have "fits b (writerIndex b) 1 \<Longrightarrow> nat (writerIndex b) < length (data b)"
    unfolding fits_def by linarith
  then show ?thesis
    by (simp add: writeBool_state be_bytes_1 overwrite_single readBool_fits)
qed


theorem bool_bytes_witness:
  "fits \<lparr>readerIndex = 1, writerIndex = 0, data = [2, 255, 1]\<rparr> 1 1 \<and>
   data (snd (writeBool \<lparr>readerIndex = 1, writerIndex = 0, data = [2, 255, 1]\<rparr> True))
     = [1, 255, 1] \<and>
   fst (readBool \<lparr>readerIndex = 1, writerIndex = 0, data = [2, 255, 1]\<rparr>) = Inr False"
proof -
  have f: "fits \<lparr>readerIndex = 1, writerIndex = 0, data = [2, 255, 1]\<rparr> 1 1"
    "fits \<lparr>readerIndex = 1, writerIndex = 0, data = [2, 255, 1]\<rparr> 0 1"
    by (simp_all add: fits_def)
  show ?thesis
    using f bool_bytes [of "\<lparr>readerIndex = 1, writerIndex = 0, data = [2, 255, 1]\<rparr>" True]
    by simp
qed

section \<open>One step of the string loop\<close>

lemma writeLoop_done: "\<not> i < length s \<Longrightarrow> writeLoop b s i = (Inr (), b)"
  by (simp add: writeLoop.simps [of b s i])

lemma writeByteSigned_fail:
  "\<not> fits b (writerIndex b) 1 \<Longrightarrow> writeByteSigned b v = (Inl RangeError, b)"
  by (auto simp: writeByteSigned_def setInt8_def SetViewValue_def fits_def)

lemma writeInt_fail:
  "\<not> fits b (writerIndex b) 4 \<Longrightarrow> writeInt b v = (Inl RangeError, b)"
  by (auto simp: writeInt_def setInt32_def SetViewValue_def fits_def)

lemma writeLoop_fail:
  "i < length s \<Longrightarrow> \<not> fits b (writerIndex b) 1 \<Longrightarrow> writeLoop b s i = (Inl RangeError, b)"
  by (simp add: writeLoop.simps [of b s i] writeByteSigned_fail)

lemma writeByteSigned_ok:
  "fits b (writerIndex b) 1 \<Longrightarrow>
   writeByteSigned b v = (Inr (), snd (writeByteSigned b v))"
  by (simp add: writeByteSigned_def setInt8_def SetViewValue_def fits_def)

lemma writeLoop_step:
  "i < length s \<Longrightarrow> fits b (writerIndex b) 1 \<Longrightarrow>
   writeLoop b s i = writeLoop (snd (writeByteSigned b (charCodeAt s i))) s (i + 1)"
  by (simp add: writeLoop.simps [of b s i] writeByteSigned_def setInt8_def SetViewValue_def
      fits_def)

lemma writeLoop_readerIndex: "readerIndex (snd (writeLoop b s i)) = readerIndex b"
proof (induction b s i rule: writeLoop.induct)
  case (1 b s i)
  show ?case
  proof (cases "i < length s")
    case False
    then show ?thesis by (simp add: writeLoop_done)
  next
    case more: True
    show ?thesis
    proof (cases "fits b (writerIndex b) 1")
      case False
      with more show ?thesis by (simp add: writeLoop_fail)
    next
      case True
      let ?b1 = "snd (writeByteSigned b (charCodeAt s i))"
      have "readerIndex (snd (writeLoop ?b1 s (i + 1))) = readerIndex ?b1"
        using more writeByteSigned_ok [OF True, of "charCodeAt s i", symmetric]
        by (rule "1.IH") simp
      then show ?thesis
        using more True by (simp add: writeLoop_step writeByteSigned_state)
    qed
  qed
qed

lemma writeByteString_readerIndex:
  "readerIndex (snd (writeByteString b s)) = readerIndex b"
proof (cases "fits b (writerIndex b) 4")
  case True
  then have "writeByteString b s = writeLoop (snd (writeInt b (int (length s)))) s 0"
    by (simp add: writeByteString_def writeInt_def setInt32_def SetViewValue_def fits_def)
  then show ?thesis
    using True by (simp add: writeLoop_readerIndex writeInt_state)
next
  case False
  then show ?thesis
    by (simp add: writeByteString_def writeInt_fail)
qed

lemma readByteString_writerIndex:
  "writerIndex (snd (readByteString b)) = writerIndex b"
  by (simp add: readByteString_def readInt_def Let_def split: sum.splits)


section \<open>The cursors\<close>

text \<open>
  Claim C7. Every writing call (\<open>writeBool\<close>, \<open>writeByteSigned\<close>,
  \<open>writeByteUnsigned\<close>, \<open>writeShort\<close>, \<open>writeFloat\<close>, \<open>writeInt\<close>,
  \<open>writeLong\<close>, \<open>writeByteString\<close>, \<open>skipWriter\<close>, \<open>setWriterIndex\<close>) leaves
  \<open>readerIndex\<close> as it was, and every reading call (\<open>readBool\<close>,
  \<open>readByteSigned\<close>, \<open>readByteUnsigned\<close>, \<open>readShort\<close>, \<open>readFloat\<close>,
  \<open>readInt\<close>, \<open>readLong\<close>, \<open>readByteString\<close>, \<open>skipReader\<close>,
  \<open>setReaderIndex\<close>) leaves \<open>writerIndex\<close> as it was, whether the call returns or
  throws.
\<close>

theorem cursor_independence:
  "readerIndex (snd (writeBool b x)) = readerIndex b \<and>
   readerIndex (snd (writeByteSigned b v)) = readerIndex b \<and>
   readerIndex (snd (writeByteUnsigned b v)) = readerIndex b \<and>
   readerIndex (snd (writeShort b v)) = readerIndex b \<and>
   readerIndex (snd (writeFloat enc b f)) = readerIndex b \<and>
   readerIndex (snd (writeInt b v)) = readerIndex b \<and>
   readerIndex (snd (writeLong b v)) = readerIndex b \<and>
   readerIndex (snd (writeByteString b s)) = readerIndex b \<and>
   readerIndex (skipWriter b n) = readerIndex b \<and>
   readerIndex (setWriterIndex b i) = readerIndex b \<and>
   writerIndex (snd (readBool b)) = writerIndex b \<and>
   writerIndex (snd (readByteSigned b)) = writerIndex b \<and>
   writerIndex (snd (readByteUnsigned b)) = writerIndex b \<and>
   writerIndex (snd (readShort b)) = writerIndex b \<and>
   writerIndex (snd (readFloat dec b)) = writerIndex b \<and>
   writerIndex (snd (readInt b)) = writerIndex b \<and>
   writerIndex (snd (readLong b)) = writerIndex b \<and>
   writerIndex (snd (readByteString b)) = writerIndex b \<and>
   writerIndex (skipReader b n) = writerIndex b \<and>
   writerIndex (setReaderIndex b i) = writerIndex b"
  by (simp add: writeBool_state writeByteSigned_state writeByteUnsigned_state writeShort_state
      writeFloat_state writeInt_state writeLong_state writeByteString_readerIndex
      skipWriter_def setWriterIndex_def readBool_state readByteSigned_state
      readByteUnsigned_state readShort_state readFloat_state readInt_state readLong_state
      readByteString_writerIndex skipReader_def setReaderIndex_def)

lemma writeBool_result:
  "fst (writeBool b v) = (if fits b (writerIndex b) 1 then Inr () else Inl RangeError)"
  by (simp add: writeBool_def setInt8_def SetViewValue_def fits_def)

lemma writeByteSigned_result:
  "fst (writeByteSigned b v) = (if fits b (writerIndex b) 1 then Inr () else Inl RangeError)"
  by (simp add: writeByteSigned_def setInt8_def SetViewValue_def fits_def)

lemma writeByteUnsigned_result:
  "fst (writeByteUnsigned b v) = (if fits b (writerIndex b) 1 then Inr () else Inl RangeError)"
  by (simp add: writeByteUnsigned_def setInt8_def SetViewValue_def fits_def)

lemma writeShort_result:
  "fst (writeShort b v) = (if fits b (writerIndex b) 2 then Inr () else Inl RangeError)"
  by (simp add: writeShort_def setInt16_def SetViewValue_def fits_def)

lemma writeFloat_result:
  "fst (writeFloat enc b f) = (if fits b (writerIndex b) 4 then Inr () else Inl RangeError)"
  by (simp add: writeFloat_def setFloat32_def SetViewValue_def fits_def)

lemma writeLong_result:
  "fst (writeLong b v) = (if fits b (writerIndex b) 8 then Inr () else Inl RangeError)"
  by (simp add: writeLong_def setBigInt64_def SetViewValue_def fits_def)

text \<open>
  Claim C8, as amended. Each fixed-width read moves \<open>readerIndex\<close> forward by exactly
  the width \<open>K\<close> of its type (1 for bool, int8 and uint8, 2 for int16, 4 for float32
  and int32, 8 for int64), also when the read throws, in every state in which
  \<open>readerIndex\<close> and \<open>readerIndex + K\<close> are safe integers. Each fixed-width write
  returns and moves \<open>writerIndex\<close> forward by exactly \<open>K\<close> when the storage holds
  \<open>K\<close> bytes at the write cursor; otherwise it throws a \<open>RangeError\<close> and leaves
  \<open>writerIndex\<close> where it was. \<open>skipReader(n)\<close> and \<open>skipWriter(n)\<close> change
  their cursor by exactly \<open>n\<close>, negative \<open>n\<close> included, whenever the cursor, \<open>n\<close>
  and their sum are safe integers.

  As stated, for every buffer state, the claim fails: a write that does not fit throws
  before it moves the cursor (\<open>cursor_advance_counterexample\<close> below).
\<close>

theorem cursor_advance:
  "(isSafeInteger (readerIndex b) \<and> isSafeInteger (readerIndex b + 1) \<longrightarrow>
      readerIndex (snd (readBool b)) = readerIndex b + 1 \<and>
      readerIndex (snd (readByteSigned b)) = readerIndex b + 1 \<and>
      readerIndex (snd (readByteUnsigned b)) = readerIndex b + 1) \<and>
   (isSafeInteger (readerIndex b) \<and> isSafeInteger (readerIndex b + 2) \<longrightarrow>
      readerIndex (snd (readShort b)) = readerIndex b + 2) \<and>
   (isSafeInteger (readerIndex b) \<and> isSafeInteger (readerIndex b + 4) \<longrightarrow>
      readerIndex (snd (readFloat dec b)) = readerIndex b + 4 \<and>
      readerIndex (snd (readInt b)) = readerIndex b + 4) \<and>
   (isSafeInteger (readerIndex b) \<and> isSafeInteger (readerIndex b + 8) \<longrightarrow>
      readerIndex (snd (readLong b)) = readerIndex b + 8) \<and>
   fst (writeBool b x) = (if fits b (writerIndex b) 1 then Inr () else Inl RangeError) \<and>
   writerIndex (snd (writeBool b x)) =
     (if fits b (writerIndex b) 1 then writerIndex b + 1 else writerIndex b) \<and>
   fst (writeByteSigned b v) = (if fits b (writerIndex b) 1 then Inr () else Inl RangeError) \<and>
   writerIndex (snd (writeByteSigned b v)) =
     (if fits b (writerIndex b) 1 then writerIndex b + 1 else writerIndex b) \<and>
   fst (writeByteUnsigned b v) = (if fits b (writerIndex b) 1 then Inr () else Inl RangeError) \<and>
   writerIndex (snd (writeByteUnsigned b v)) =
     (if fits b (writerIndex b) 1 then writerIndex b + 1 else writerIndex b) \<and>
   fst (writeShort b v) = (if fits b (writerIndex b) 2 then Inr () else Inl RangeError) \<and>
   writerIndex (snd (writeShort b v)) =
     (if fits b (writerIndex b) 2 then writerIndex b + 2 else writerIndex b) \<and>
   fst (writeFloat enc b f) = (if fits b (writerIndex b) 4 then Inr () else Inl RangeError) \<and>
   writerIndex (snd (writeFloat enc b f)) =
     (if fits b (writerIndex b) 4 then writerIndex b + 4 else writerIndex b) \<and>
   fst (writeInt b v) = (if fits b (writerIndex b) 4 then Inr () else Inl RangeError) \<and>
   writerIndex (snd (writeInt b v)) =
     (if fits b (writerIndex b) 4 then writerIndex b + 4 else writerIndex b) \<and>
   fst (writeLong b v) = (if fits b (writerIndex b) 8 then Inr () else Inl RangeError) \<and>
   writerIndex (snd (writeLong b v)) =
     (if fits b (writerIndex b) 8 then writerIndex b + 8 else writerIndex b) \<and>
   (isSafeInteger (readerIndex b) \<and> isSafeInteger n \<and> isSafeInteger (readerIndex b + n) \<longrightarrow>
      readerIndex (skipReader b n) = readerIndex b + n) \<and>
   (isSafeInteger (writerIndex b) \<and> isSafeInteger n \<and> isSafeInteger (writerIndex b + n) \<longrightarrow>
      writerIndex (skipWriter b n) = writerIndex b + n)"
  by (simp add: writeBool_state writeByteSigned_state writeByteUnsigned_state writeShort_state
      writeFloat_state writeInt_state writeLong_state skipWriter_def readBool_state
      readByteSigned_state readByteUnsigned_state readShort_state readFloat_state
      readInt_state readLong_state skipReader_def writeBool_result writeByteSigned_result
      writeByteUnsigned_result writeShort_result writeFloat_result writeInt_result
      writeLong_result)

theorem cursor_advance_counterexample:
  "writerIndex (snd (writeShort (from_buffer [0]) 7)) \<noteq> writerIndex (from_buffer [0]) + 2 \<and>
   fst (writeShort (from_buffer [0]) 7) = Inl RangeError"
  by (simp add: writeShort_def setInt16_def SetViewValue_def from_buffer_def constructor_def)

theorem cursor_advance_witness:
  "isSafeInteger (readerIndex (from_buffer [0, 0, 0])) \<and>
   isSafeInteger (readerIndex (from_buffer [0, 0, 0]) + 1) \<and>
   isSafeInteger (readerIndex (from_buffer [0, 0, 0]) + 2) \<and>
   isSafeInteger (readerIndex (from_buffer [0, 0, 0]) + 4) \<and>
   isSafeInteger (readerIndex (from_buffer [0, 0, 0]) + 8) \<and>
   isSafeInteger (writerIndex (from_buffer [0, 0, 0])) \<and>
   isSafeInteger (- 3) \<and>
   isSafeInteger (readerIndex (from_buffer [0, 0, 0]) + - 3) \<and>
   isSafeInteger (writerIndex (from_buffer [0, 0, 0]) + - 3) \<and>
   fits (from_buffer [0, 0, 0]) 0 2 \<and> \<not> fits (from_buffer [0, 0, 0]) 0 4 \<and>
   writerIndex (snd (writeShort (from_buffer [0, 0, 0]) 7)) = 2 \<and>
   fst (writeInt (from_buffer [0, 0, 0]) 7) = Inl RangeError \<and>
   writerIndex (snd (writeInt (from_buffer [0, 0, 0]) 7)) = 0 \<and>
   readerIndex (snd (readBool (from_buffer [0, 0, 0]))) = 1 \<and>
   readerIndex (snd (readShort (from_buffer [0, 0, 0]))) = 2 \<and>
   readerIndex (snd (readInt (from_buffer [0, 0, 0]))) = 4 \<and>
   readerIndex (snd (readLong (from_buffer [0, 0, 0]))) = 8 \<and>
   readerIndex (skipReader (from_buffer [0, 0, 0]) (- 3)) = - 3 \<and>
   writerIndex (skipWriter (from_buffer [0, 0, 0]) (- 3)) = - 3"
proof -
  have c: "writerIndex (from_buffer [0, 0, 0]) = 0" "readerIndex (from_buffer [0, 0, 0]) = 0"
    by (simp_all add: from_buffer_def constructor_def)
  have f: "fits (from_buffer [0, 0, 0]) 0 2" "\<not> fits (from_buffer [0, 0, 0]) 0 4"
    by (simp_all add: fits_def from_buffer_def constructor_def)
  have s: "isSafeInteger 0" "isSafeInteger 1" "isSafeInteger 2" "isSafeInteger 4"
    "isSafeInteger 8" "isSafeInteger (- 3)"
    by (simp_all add: isSafeInteger_def)
  show ?thesis
    using c f s cursor_advance [of "from_buffer [0, 0, 0]" "\<lambda>u. u" True 7 "\<lambda>f. f" 7 "- 3"]
    by simp
qed

section \<open>Strings\<close>

lemma writeLoop_fits:
  "i \<le> length s \<Longrightarrow> fits b (writerIndex b) (length s - i) \<Longrightarrow>
   writeLoop b s i =
     (Inr (), b\<lparr>data := overwrite (data b) (nat (writerIndex b))
                        (map (\<lambda>c. word_of_int (uint c)) (drop i s)),
              writerIndex := writerIndex b + int (length s - i)\<rparr>)"
proof (induction "length s - i" arbitrary: b i)
  case 0
  then have "\<not> i < length s" by simp
  then show ?case
    using 0 by (simp add: writeLoop_done overwrite_def)
next
  case (Suc k)
  let ?w = "writerIndex b"
  let ?x = "word_of_int (uint (s ! i)) :: byte"
  let ?b1 = "b\<lparr>data := overwrite (data b) (nat ?w) [?x], writerIndex := ?w + 1\<rparr>"
  have i: "i < length s" and k: "k = length s - (i + 1)"
    using Suc.hyps(2) by simp_all
  have room: "0 \<le> ?w" "nat ?w + 1 + k \<le> length (data b)"
    using Suc.prems(2) Suc.hyps(2) unfolding fits_def by linarith+
  have one: "fits b ?w 1"
    using room unfolding fits_def by linarith
  have b1: "snd (writeByteSigned b (charCodeAt s i)) = ?b1"
    using one by (simp add: writeByteSigned_state be_bytes_1 charCodeAt_def)
  have len: "length (data ?b1) = length (data b)"
    using room by simp
  have fits1: "fits ?b1 (writerIndex ?b1) (length s - (i + 1))"
    using room k len unfolding fits_def by simp
  have "writeLoop b s i = writeLoop ?b1 s (i + 1)"
    using i one by (simp add: writeLoop_step b1)
  also have "\<dots> = (Inr (), ?b1\<lparr>data := overwrite (data ?b1) (nat (writerIndex ?b1))
                        (map (\<lambda>c. word_of_int (uint c)) (drop (i + 1) s)),
              writerIndex := writerIndex ?b1 + int (length s - (i + 1))\<rparr>)"
    using k i fits1 by (intro Suc.hyps(1)) simp_all
  also have "overwrite (data ?b1) (nat (writerIndex ?b1))
               (map (\<lambda>c. word_of_int (uint c)) (drop (i + 1) s))
           = overwrite (data b) (nat ?w) (map (\<lambda>c. word_of_int (uint c)) (drop i s))"
  proof -
    have "nat (?w + 1) = nat ?w + length [?x]"
      using room(1) by simp
    moreover have "nat ?w + length [?x] + length (map (\<lambda>c. word_of_int (uint c) :: byte) (drop (i + 1) s))
        \<le> length (data b)"
      using room(2) k by simp
    ultimately have "overwrite (data ?b1) (nat (writerIndex ?b1))
               (map (\<lambda>c. word_of_int (uint c)) (drop (i + 1) s))
        = overwrite (data b) (nat ?w) ([?x] @ map (\<lambda>c. word_of_int (uint c)) (drop (i + 1) s))"
      using overwrite_adjacent [of "nat ?w" "[?x]" "map (\<lambda>c. word_of_int (uint c)) (drop (i + 1) s)" "data b"]
      by simp
    moreover have "drop i s = s ! i # drop (i + 1) s"
      using i by (simp add: Cons_nth_drop_Suc)
    ultimately show ?thesis by simp
  qed
  finally show ?case
    using i by (simp add: k)
qed


lemma writeByteString_fits:
  assumes "fits b (writerIndex b) (4 + length s)"
  shows "writeByteString b s =
     (Inr (), b\<lparr>data := overwrite (data b) (nat (writerIndex b))
                        (be_bytes 4 (int (length s)) @ map (\<lambda>c. word_of_int (uint c)) s),
              writerIndex := writerIndex b + 4 + int (length s)\<rparr>)"
proof -
  let ?w = "writerIndex b"
  let ?b1 = "b\<lparr>data := overwrite (data b) (nat ?w) (be_bytes 4 (int (length s))),
               writerIndex := ?w + 4\<rparr>"
  have room: "0 \<le> ?w" "nat ?w + 4 + length s \<le> length (data b)"
    using assms unfolding fits_def by linarith+
  have four: "fits b ?w 4"
    using room unfolding fits_def by linarith
  have w: "writeInt b (int (length s)) = (Inr (), ?b1)"
    using four writeInt_state [of b "int (length s)"] writeInt_result [of b "int (length s)"]
    by (simp add: prod_eq_iff)
  have "fits ?b1 (writerIndex ?b1) (length s - 0)"
    using room unfolding fits_def by simp
  then have "writeLoop ?b1 s 0 =
     (Inr (), ?b1\<lparr>data := overwrite (data ?b1) (nat (writerIndex ?b1))
                        (map (\<lambda>c. word_of_int (uint c)) (drop 0 s)),
              writerIndex := writerIndex ?b1 + int (length s - 0)\<rparr>)"
    by (intro writeLoop_fits) simp
  moreover have "overwrite (data ?b1) (nat (writerIndex ?b1)) (map (\<lambda>c. word_of_int (uint c)) s)
      = overwrite (data b) (nat ?w)
          (be_bytes 4 (int (length s)) @ map (\<lambda>c. word_of_int (uint c)) s)"
  proof -
    have "nat (?w + 4) = nat ?w + length (be_bytes 4 (int (length s)))"
      using room(1) by simp
    then show ?thesis
      using room(2)
        overwrite_adjacent [of "nat ?w" "be_bytes 4 (int (length s))"
          "map (\<lambda>c. word_of_int (uint c)) s" "data b"]
      by simp
  qed
  ultimately show ?thesis
    by (simp add: writeByteString_def w)
qed

lemma getUint8_fits:
  "0 \<le> i \<Longrightarrow> i + 1 \<le> int (length d) \<Longrightarrow> getUint8 d i = Inr (uint (d ! nat i))"
  by (simp only: getUint8_def GetViewValue_1 be_val_single sum.case)

lemma readLoop_done: "\<not> i < n \<Longrightarrow> readLoop b n i s = Inr s"
  by (simp add: readLoop.simps [of b n i s])

lemma readLoop_fits:
  "0 \<le> i \<Longrightarrow> i \<le> n \<Longrightarrow> fits b (readerIndex b) (nat n) \<Longrightarrow>
   readLoop b n i acc =
     Inr (acc @ map (\<lambda>x. fromCharCode (uint x))
                  (take (nat (n - i)) (drop (nat (readerIndex b + i)) (data b))))"
proof (induction "nat (n - i)" arbitrary: i acc)
  case 0
  then have "\<not> i < n" by simp
  then show ?case
    using 0 by (simp add: readLoop_done)
next
  case (Suc k)
  let ?r = "readerIndex b"
  have i: "i < n" and k: "k = nat (n - (i + 1))"
    using Suc.hyps(2) by linarith+
  have room: "0 \<le> ?r" "?r + n \<le> int (length (data b))"
    using Suc.prems(3) i Suc.prems(1) unfolding fits_def by linarith+
  have at: "nat (?r + i) < length (data b)"
    using room i Suc.prems(1) by linarith
  have get: "getUint8 (data b) (?r + i) = Inr (uint (data b ! nat (?r + i)))"
    using room i Suc.prems(1) by (intro getUint8_fits) linarith+
  have step: "readLoop b n i acc =
      readLoop b n (i + 1) (acc @ [fromCharCode (uint (data b ! nat (?r + i)))])"
    using i by (simp add: readLoop.simps [of b n i acc] get)
  have rest: "readLoop b n (i + 1) (acc @ [fromCharCode (uint (data b ! nat (?r + i)))]) = Inr ((acc @ [fromCharCode (uint (data b ! nat (?r + i)))]) @
      map (\<lambda>x. fromCharCode (uint x))
        (take (nat (n - (i + 1))) (drop (nat (?r + (i + 1))) (data b))))"
    using k i Suc.prems by (intro Suc.hyps(1)) simp_all
  have "take (nat (n - i)) (drop (nat (?r + i)) (data b)) =
      data b ! nat (?r + i) # take (nat (n - (i + 1))) (drop (nat (?r + (i + 1))) (data b))"
  proof -
    have "nat (n - i) = Suc (nat (n - (i + 1)))"
      using i by linarith
    moreover have "nat (?r + (i + 1)) = Suc (nat (?r + i))"
      using room(1) Suc.prems(1) by linarith
    moreover have "drop (nat (?r + i)) (data b) = data b ! nat (?r + i) # drop (Suc (nat (?r + i))) (data b)"
      using at by (simp add: Cons_nth_drop_Suc)
    ultimately show ?thesis by simp
  qed
  with step rest show ?case by simp
qed

lemma readInt_eq:
  "readInt b =
     (case getInt32 (data b) (readerIndex b) of
        Inl e \<Rightarrow> (Inl e, b\<lparr>readerIndex := readerIndex b + 4\<rparr>)
      | Inr n \<Rightarrow> (Inr n, b\<lparr>readerIndex := readerIndex b + 4\<rparr>))"
  by (simp add: readInt_def Let_def)

lemma low_byte_back:
  assumes "uint (c :: 16 word) \<le> 255"
  shows "fromCharCode (uint (word_of_int (uint c) :: byte)) = c"
proof -
  have "uint (word_of_int (uint c) :: byte) = uint c mod 2 ^ LENGTH(8)"
    by (rule uint_word_of_int)
  also have "\<dots> = uint c"
    using assms by simp
  finally have "uint (word_of_int (uint c) :: byte) = uint c" .
  then show ?thesis
    by (simp only: fromCharCode_def word_of_int_uint)
qed


lemma readByteString_negative:
  assumes "getInt32 (data b) (readerIndex b) = Inr N" and "N < 0"
  shows "readByteString b = (Inr [], b\<lparr>readerIndex := readerIndex b + 4 + N\<rparr>)"
proof -
  have "readLoop (b\<lparr>readerIndex := readerIndex b + 4\<rparr>) N 0 [] = Inr []"
    using assms(2) by (simp add: readLoop_done)
  then show ?thesis
    using assms(1) by (simp add: readByteString_def readInt_eq)
qed

lemma take_drop_overwrite_prefix:
  "i + length (xs @ ys) \<le> length d \<Longrightarrow>
   take (length xs) (drop i (overwrite d i (xs @ ys))) = xs"
  by (simp add: overwrite_def)

lemma take_drop_overwrite_suffix:
  "i + length (xs @ ys) \<le> length d \<Longrightarrow>
   take (length ys) (drop (i + length xs) (overwrite d i (xs @ ys))) = ys"
  by (simp add: overwrite_def)

text \<open>The length that \<open>readByteString\<close> finds where \<open>writeByteString\<close> wrote.\<close>

lemma written_length:
  assumes "fits b P (4 + length s)"
  shows "getInt32 (data (snd (writeByteString (setWriterIndex b P) s))) P
    = Inr (to_signed 4 (int (length s) mod 2 ^ 32))"
proof -
  let ?L = "be_bytes 4 (int (length s))"
  let ?M = "map (\<lambda>c. word_of_int (uint c) :: byte) s"
  have room: "0 \<le> P" "nat P + length (?L @ ?M) \<le> length (data b)"
    using assms unfolding fits_def by simp_all linarith
  have d: "data (snd (writeByteString (setWriterIndex b P) s)) = overwrite (data b) (nat P) (?L @ ?M)"
    using assms by (simp add: writeByteString_fits setWriterIndex_def fits_def)
  have "take 4 (drop (nat P) (overwrite (data b) (nat P) (?L @ ?M))) = ?L"
    using take_drop_overwrite_prefix [OF room(2)] by simp
  moreover have "P + 4 \<le> int (length (overwrite (data b) (nat P) (?L @ ?M)))"
    using room by simp
  ultimately have "GetViewValue (overwrite (data b) (nat P) (?L @ ?M)) P 4 = Inr ?L"
    using room(1) by (simp add: GetViewValue_def)
  then show ?thesis
    by (simp add: d getInt32_def getInt_def be_val_be_bytes)
qed


lemma chars_back:
  "\<forall>c \<in> set s. uint c \<le> 255 \<Longrightarrow>
   map (\<lambda>x. fromCharCode (uint x)) (map (\<lambda>c. word_of_int (uint c) :: byte) s) = s"
proof (induction s)
  case Nil
  show ?case by simp
next
  case (Cons c s)
  have "fromCharCode (uint (word_of_int (uint c) :: byte)) = c"
    using Cons.prems by (intro low_byte_back) simp
  moreover have
    "map (\<lambda>x. fromCharCode (uint x)) (map (\<lambda>c. word_of_int (uint c) :: byte) s) = s"
    using Cons.prems by (intro Cons.IH) simp
  ultimately show ?case
    by (simp only: list.map)
qed

text \<open>
  Claim C5. Whenever the four bytes at the read cursor are inside the storage and
  their big-endian signed value \<open>N\<close> is negative, \<open>readByteString\<close> throws nothing:
  it returns the empty string and leaves the read cursor at its start plus \<open>4 + N\<close>,
  that is, before the end of the length it has just read.
\<close>

theorem read_string_negative_length:
  assumes "getInt32 (data b) (readerIndex b) = Inr N" and "N < 0"
  shows "readByteString b = (Inr [], b\<lparr>readerIndex := readerIndex b + 4 + N\<rparr>)"
  using assms by (rule readByteString_negative)

theorem read_string_negative_length_witness:
  "getInt32 (data \<lparr>readerIndex = 1, writerIndex = 0, data = [7, 255, 255, 255, 240, 7]\<rparr>)
     (readerIndex \<lparr>readerIndex = 1, writerIndex = 0, data = [7, 255, 255, 255, 240, 7]\<rparr>)
     = Inr (- 16) \<and> (- 16 :: int) < 0 \<and>
   readByteString \<lparr>readerIndex = 1, writerIndex = 0, data = [7, 255, 255, 255, 240, 7]\<rparr>
     = (Inr [], \<lparr>readerIndex = - 11, writerIndex = 0, data = [7, 255, 255, 255, 240, 7]\<rparr>)"
proof -
  have g: "getInt32 (data \<lparr>readerIndex = 1, writerIndex = 0, data = [7, 255, 255, 255, 240, 7]\<rparr>)
     (readerIndex \<lparr>readerIndex = 1, writerIndex = 0, data = [7, 255, 255, 255, 240, 7]\<rparr>)
     = Inr (- 16)"
    by (simp add: getInt32_def getInt_def GetViewValue_def be_val_def to_signed_def)
  have n: "(- 16 :: int) < 0"
    by simp
  show ?thesis
    using g n read_string_negative_length [OF g n] by simp
qed

lemma string_written_read:
  assumes "fits b P (4 + length s)" and "\<forall>c \<in> set s. uint c \<le> 255"
    and "length s < 2 ^ 31"
  shows "fst (writeByteString (setWriterIndex b P) s) = Inr () \<and>
    writerIndex (snd (writeByteString (setWriterIndex b P) s)) = P + (4 + int (length s)) \<and>
    fst (readByteString (setReaderIndex (snd (writeByteString (setWriterIndex b P) s)) P))
      = Inr s \<and>
    readerIndex (snd (readByteString
        (setReaderIndex (snd (writeByteString (setWriterIndex b P) s)) P)))
      = P + (4 + int (length s))"
proof -
  let ?L = "be_bytes 4 (int (length s))"
  let ?M = "map (\<lambda>c. word_of_int (uint c) :: byte) s"
  let ?d = "overwrite (data b) (nat P) (?L @ ?M)"
  let ?b1 = "snd (writeByteString (setWriterIndex b P) s)"
  let ?b2 = "setReaderIndex ?b1 P"
  let ?b3 = "?b2\<lparr>readerIndex := P + 4\<rparr>"
  let ?n = "int (length s)"
  have room: "0 \<le> P" "nat P + length (?L @ ?M) \<le> length (data b)"
    using assms(1) unfolding fits_def by simp_all linarith
  have w: "writeByteString (setWriterIndex b P) s =
      (Inr (), b\<lparr>data := ?d, writerIndex := P + 4 + ?n\<rparr>)"
    using assms(1) writeByteString_fits [of "setWriterIndex b P" s]
    by (simp add: setWriterIndex_def fits_def)
  have "to_signed 4 (?n mod 2 ^ 32) = ?n"
    using assms(3) to_signed_mod [of 4 ?n] by simp
  then have len: "getInt32 (data ?b2) (readerIndex ?b2) = Inr ?n"
    using written_length [OF assms(1)] by (simp add: setReaderIndex_def)
  have "fits ?b3 (readerIndex ?b3) (nat ?n)"
    using room by (simp add: fits_def w setReaderIndex_def)
  then have "readLoop ?b3 ?n 0 [] =
      Inr ([] @ map (\<lambda>x. fromCharCode (uint x))
             (take (nat (?n - 0)) (drop (nat (readerIndex ?b3 + 0)) (data ?b3))))"
    by (intro readLoop_fits) simp_all
  moreover have "take (length ?M) (drop (nat P + length ?L) ?d) = ?M"
    using room(2) by (rule take_drop_overwrite_suffix)
  moreover have "nat (P + 4) = nat P + 4"
    using room(1) by simp
  moreover have "map (\<lambda>x. fromCharCode (uint x)) ?M = s"
    using assms(2) by (rule chars_back)
  ultimately have loop: "readLoop ?b3 ?n 0 [] = Inr s"
    by (simp add: w setReaderIndex_def)
  have "readByteString ?b2 = (Inr s, ?b3\<lparr>readerIndex := P + 4 + ?n\<rparr>)"
    using len loop by (simp add: readByteString_def readInt_eq setReaderIndex_def)
  then show ?thesis
    by (simp add: w)
qed


text \<open>
  Claim C3. For every string \<open>s\<close> whose characters all have codes \<open>0..255\<close> and
  every position \<open>P\<close> at which the storage holds \<open>4 + length s\<close> bytes:
  \<open>writeByteString(s)\<close> with the write cursor at \<open>P\<close> returns and moves the write
  cursor forward by exactly \<open>4 + length s\<close>, and \<open>readByteString()\<close> with the read
  cursor at \<open>P\<close> then returns \<open>s\<close> and moves the read cursor forward by exactly
  \<open>4 + length s\<close>.

  A list has any length, a JavaScript string has not: no engine builds one of \<open>2^31\<close>
  code units or more. \<open>length s < 2 ^ 31\<close> says that the list is a string of the
  program.
\<close>

theorem roundtrip_string:
  assumes "fits b P (4 + length s)" and "\<forall>c \<in> set s. uint c \<le> 255"
    and "length s < 2 ^ 31"
  shows "fst (writeByteString (setWriterIndex b P) s) = Inr () \<and>
    writerIndex (snd (writeByteString (setWriterIndex b P) s)) = P + (4 + int (length s)) \<and>
    fst (readByteString (setReaderIndex (snd (writeByteString (setWriterIndex b P) s)) P))
      = Inr s \<and>
    readerIndex (snd (readByteString
        (setReaderIndex (snd (writeByteString (setWriterIndex b P) s)) P)))
      = P + (4 + int (length s))"
  using assms by (rule string_written_read)

theorem roundtrip_string_witness:
  "fits (from_buffer [9, 9, 9, 9, 9, 9, 9, 9, 9]) 1 (4 + length [72, 105, 255 :: 16 word]) \<and>
   uint (72 :: 16 word) \<le> 255 \<and> uint (105 :: 16 word) \<le> 255 \<and> uint (255 :: 16 word) \<le> 255 \<and>
   length [72, 105, 255 :: 16 word] < 2 ^ 31 \<and>
   fst (readByteString (setReaderIndex (snd (writeByteString
       (setWriterIndex (from_buffer [9, 9, 9, 9, 9, 9, 9, 9, 9]) 1) [72, 105, 255])) 1))
     = Inr [72, 105, 255] \<and>
   readerIndex (snd (readByteString (setReaderIndex (snd (writeByteString
       (setWriterIndex (from_buffer [9, 9, 9, 9, 9, 9, 9, 9, 9]) 1) [72, 105, 255])) 1)))
     = 8"
proof -
  have f: "fits (from_buffer [9, 9, 9, 9, 9, 9, 9, 9, 9]) 1 (4 + length [72, 105, 255 :: 16 word])"
    by (simp add: fits_def from_buffer_def constructor_def)
  have c: "\<forall>c \<in> set [72, 105, 255 :: 16 word]. uint c \<le> 255"
    by simp
  have l: "length [72, 105, 255 :: 16 word] < 2 ^ 31"
    by simp
  show ?thesis
    using f c l roundtrip_string [OF f c l] by simp
qed

lemma be_bytes_4_2: "be_bytes 4 2 = [0, 0, 0, 2]"
  by code_simp

lemma js_AB: "js ''AB'' = [65, 66]"
  by (simp add: js_def)

text \<open>
  Claim C9. On a newly constructed buffer of at least six bytes, both cursors at 0,
  \<open>writeByteString("AB")\<close> stores exactly the bytes \<open>0, 0, 0, 2, 65, 66\<close> at the
  offsets 0 to 5; \<open>setReaderIndex(0)\<close> and \<open>readByteString()\<close> then return
  \<open>"AB"\<close> and leave the read cursor at 6.
\<close>

theorem string_AB_layout:
  assumes "6 \<le> length (buffer arr)"
  shows "take 6 (bytes (snd (writeByteString (constructor arr) (js ''AB''))))
      = [0, 0, 0, 2, 65, 66] \<and>
    fst (readByteString
          (setReaderIndex (snd (writeByteString (constructor arr) (js ''AB''))) 0))
      = Inr (js ''AB'') \<and>
    readerIndex (snd (readByteString
          (setReaderIndex (snd (writeByteString (constructor arr) (js ''AB''))) 0)))
      = 6"
proof -
  let ?b = "constructor arr"
  have b: "setWriterIndex ?b 0 = ?b"
    by (simp add: setWriterIndex_def constructor_def)
  have f: "fits ?b 0 (4 + length (js ''AB''))" "fits ?b (writerIndex ?b) (4 + length (js ''AB''))"
    using assms by (simp_all add: fits_def constructor_def js_AB)
  have "data (snd (writeByteString ?b (js ''AB''))) =
      overwrite (buffer arr) 0 [0, 0, 0, 2, 65, 66]"
    using writeByteString_fits [OF f(2)] by (simp add: constructor_def js_AB be_bytes_4_2)
  then have bytes: "take 6 (bytes (snd (writeByteString ?b (js ''AB'')))) = [0, 0, 0, 2, 65, 66]"
    by (simp add: bytes_def overwrite_def)
  have "\<forall>c \<in> set (js ''AB''). uint c \<le> 255" "length (js ''AB'') < 2 ^ 31"
    by (simp_all add: js_AB)
  with f(1) show ?thesis
    using string_written_read [of ?b 0 "js ''AB''"] bytes by (simp add: b js_AB)
qed

theorem string_AB_layout_witness:
  "6 \<le> length (buffer \<lparr>buffer = replicate 16 0, byteOffset = 0, byteLength = 16\<rparr>) \<and>
   emptyBuffer 16 = Inr (constructor \<lparr>buffer = replicate 16 0, byteOffset = 0, byteLength = 16\<rparr>) \<and>
   take 6 (bytes (snd (writeByteString
     (constructor \<lparr>buffer = replicate 16 0, byteOffset = 0, byteLength = 16\<rparr>) (js ''AB''))))
      = [0, 0, 0, 2, 65, 66] \<and>
    fst (readByteString (setReaderIndex (snd (writeByteString
     (constructor \<lparr>buffer = replicate 16 0, byteOffset = 0, byteLength = 16\<rparr>) (js ''AB''))) 0))
      = Inr (js ''AB'')"
proof -
  have h: "6 \<le> length (buffer \<lparr>buffer = replicate 16 0, byteOffset = 0, byteLength = 16\<rparr>)"
    by simp
  show ?thesis
    using h string_AB_layout [OF h] by (simp add: emptyBuffer_def)
qed

lemma overwrite_nth_below: "k < i \<Longrightarrow> i \<le> length d \<Longrightarrow> overwrite d i bs ! k = d ! k"
  by (simp add: overwrite_def nth_append)

lemma writeLoop_below:
  "k < nat (writerIndex b) \<Longrightarrow> data (snd (writeLoop b s i)) ! k = data b ! k"
proof (induction b s i rule: writeLoop.induct)
  case (1 b s i)
  show ?case
  proof (cases "i < length s")
    case False
    then show ?thesis by (simp add: writeLoop_done)
  next
    case more: True
    show ?thesis
    proof (cases "fits b (writerIndex b) 1")
      case False
      with more show ?thesis by (simp add: writeLoop_fail)
    next
      case True
      let ?b1 = "snd (writeByteSigned b (charCodeAt s i))"
      have room: "0 \<le> writerIndex b" "nat (writerIndex b) + 1 \<le> length (data b)"
        using True unfolding fits_def by linarith+
      have w1: "writerIndex ?b1 = writerIndex b + 1"
        using True by (simp add: writeByteSigned_state)
      have d1: "data ?b1 ! k = data b ! k"
        using True room "1.prems"
        by (simp add: writeByteSigned_state overwrite_nth_below)
      have below: "k < nat (writerIndex ?b1)"
        using "1.prems" room(1) by (simp add: w1)
      have "data (snd (writeLoop ?b1 s (i + 1))) ! k = data ?b1 ! k"
        using more writeByteSigned_ok [OF True, of "charCodeAt s i", symmetric] refl below
        by (rule "1.IH")
      then show ?thesis
        using more True d1 by (simp add: writeLoop_step)
    qed
  qed
qed

lemma writeLoop_nth:
  "i \<le> j \<Longrightarrow> j < length s \<Longrightarrow> fits b (writerIndex b) (j - i + 1) \<Longrightarrow>
   data (snd (writeLoop b s i)) ! (nat (writerIndex b) + (j - i)) = word_of_int (uint (s ! j))"
proof (induction "j - i" arbitrary: b i)
  case 0
  let ?w = "writerIndex b"
  let ?b1 = "snd (writeByteSigned b (charCodeAt s i))"
  have ji: "j = i" and i: "i < length s"
    using 0 by simp_all
  have one: "fits b ?w 1"
    using "0.prems"(3) ji by simp
  have room: "0 \<le> ?w" "nat ?w + 1 \<le> length (data b)"
    using one unfolding fits_def by linarith+
  have b1: "?b1 = b\<lparr>data := overwrite (data b) (nat ?w) [word_of_int (uint (s ! i))],
      writerIndex := ?w + 1\<rparr>"
    using one by (simp add: writeByteSigned_state be_bytes_1 charCodeAt_def)
  have "nat ?w < nat (writerIndex ?b1)"
    using room(1) by (simp add: b1)
  then have "data (snd (writeLoop ?b1 s (i + 1))) ! nat ?w = data ?b1 ! nat ?w"
    by (rule writeLoop_below)
  also have "\<dots> = word_of_int (uint (s ! i))"
    using room(2) nth_overwrite [of "nat ?w" "[word_of_int (uint (s ! i))]" "data b" 0]
    by (simp add: b1)
  finally show ?case
    using i one by (simp add: writeLoop_step ji)
next
  case (Suc k)
  let ?w = "writerIndex b"
  let ?b1 = "snd (writeByteSigned b (charCodeAt s i))"
  have i: "i < length s" "i + 1 \<le> j" and k: "k = j - (i + 1)"
    using Suc.hyps(2) Suc.prems(2) by simp_all
  have room: "0 \<le> ?w" "nat ?w + (j - i + 1) \<le> length (data b)"
    using Suc.prems(3) unfolding fits_def by linarith+
  have one: "fits b ?w 1"
    using room unfolding fits_def by linarith
  have b1: "?b1 = b\<lparr>data := overwrite (data b) (nat ?w) [word_of_int (uint (s ! i))],
      writerIndex := ?w + 1\<rparr>"
    using one by (simp add: writeByteSigned_state be_bytes_1 charCodeAt_def)
  have "length (data ?b1) = length (data b)"
    using room by (simp add: b1)
  then have "fits ?b1 (writerIndex ?b1) (j - (i + 1) + 1)"
    using room i unfolding fits_def by (simp add: b1)
  with k i(2) Suc.prems(2)
  have "data (snd (writeLoop ?b1 s (i + 1))) ! (nat (writerIndex ?b1) + (j - (i + 1)))
      = word_of_int (uint (s ! j))"
    by (intro Suc.hyps(1)) simp_all
  moreover have "nat (writerIndex ?b1) + (j - (i + 1)) = nat ?w + (j - i)"
    using room(1) i(2) by (simp add: b1)
  ultimately show ?case
    using i(1) one by (simp add: writeLoop_step)
qed

lemma written_char:
  assumes "fits b P (5 + i)" and "i < length s"
  shows "uint (data (snd (writeByteString (setWriterIndex b P) s)) ! (nat P + 4 + i))
    = charCodeAt s i mod 256"
proof -
  let ?b0 = "setWriterIndex b P"
  let ?b1 = "snd (writeInt ?b0 (int (length s)))"
  have room: "0 \<le> P" "nat P + 5 + i \<le> length (data b)"
    using assms(1) unfolding fits_def by linarith+
  have four: "fits ?b0 (writerIndex ?b0) 4"
    using room unfolding fits_def by (simp add: setWriterIndex_def)
  have w: "writeByteString ?b0 s = writeLoop ?b1 s 0"
    using four
    by (simp add: writeByteString_def writeInt_def setInt32_def SetViewValue_def fits_def)
  have b1: "writerIndex ?b1 = P + 4" "length (data ?b1) = length (data b)"
    using four room by (simp_all add: writeInt_state setWriterIndex_def)
  have "fits ?b1 (writerIndex ?b1) (i - 0 + 1)"
    using room unfolding fits_def by (simp add: b1)
  with assms(2)
  have "data (snd (writeLoop ?b1 s 0)) ! (nat (writerIndex ?b1) + (i - 0))
      = word_of_int (uint (s ! i))"
    by (intro writeLoop_nth) simp_all
  moreover have "nat (writerIndex ?b1) + (i - 0) = nat P + 4 + i"
    using room(1) by (simp add: b1)
  ultimately have "data (snd (writeByteString ?b0 s)) ! (nat P + 4 + i)
      = word_of_int (uint (s ! i))"
    by (simp add: w)
  moreover have "uint (word_of_int (uint (s ! i)) :: byte) = uint (s ! i) mod 2 ^ LENGTH(8)"
    by (rule uint_word_of_int)
  ultimately show ?thesis
    by (simp add: charCodeAt_def)
qed

lemma wide_char_lost:
  "fst (readByteString (setReaderIndex (snd (writeByteString
      (setWriterIndex (from_buffer [0, 0, 0, 0, 0]) 0) [256])) 0)) = Inr [0]"
  by code_simp

text \<open>
  Claim C10. For every string \<open>s\<close> and every index \<open>i\<close> of it, the byte that
  \<open>writeByteString(s)\<close> stores for the character \<open>i\<close> (at the position of the
  write plus \<open>4 + i\<close>, whenever the storage reaches that far, also when the call
  throws on a later character) is the code unit of that character modulo 256. So there
  is a string with a code above 255 for which \<open>writeByteString\<close> and then
  \<open>readByteString\<close> at the same position return a string, and another one.
\<close>

theorem string_bytes_mod_256:
  "(fits b P (5 + i) \<and> i < length s \<longrightarrow>
      uint (data (snd (writeByteString (setWriterIndex b P) s)) ! (nat P + 4 + i))
        = charCodeAt s i mod 256) \<and>
   (\<exists>s' b' P' t. (\<exists>c \<in> set s'. 255 < uint c) \<and> fits b' P' (4 + length s') \<and>
      fst (readByteString (setReaderIndex (snd (writeByteString
        (setWriterIndex b' P') s')) P')) = Inr t \<and> t \<noteq> s')"
proof -
  have "\<exists>c \<in> set [256 :: 16 word]. 255 < uint c"
    by simp
  moreover have "fits (from_buffer [0, 0, 0, 0, 0]) 0 (4 + length [256 :: 16 word])"
    by (simp add: fits_def from_buffer_def constructor_def)
  moreover have "[0] \<noteq> [256 :: 16 word]"
    by simp
  ultimately have "\<exists>s' b' P' t. (\<exists>c \<in> set s'. 255 < uint c) \<and> fits b' P' (4 + length s') \<and>
      fst (readByteString (setReaderIndex (snd (writeByteString
        (setWriterIndex b' P') s')) P')) = Inr t \<and> t \<noteq> s'"
    using wide_char_lost by blast
  then show ?thesis
    using written_char [of b P i s] by blast
qed

theorem string_bytes_mod_256_witness:
  "fits (from_buffer [0, 0, 0, 0, 0]) 0 (5 + 0) \<and>
   (0 :: nat) < length [321, 66 :: 16 word] \<and>
   fst (writeByteString (setWriterIndex (from_buffer [0, 0, 0, 0, 0]) 0) [321, 66])
     = Inl RangeError \<and>
   uint (data (snd (writeByteString (setWriterIndex (from_buffer [0, 0, 0, 0, 0]) 0)
       [321, 66])) ! (nat 0 + 4 + 0)) = 65 \<and>
   charCodeAt [321, 66] 0 = 321"
proof -
  have f: "fits (from_buffer [0, 0, 0, 0, 0]) 0 (5 + 0)"
    by (simp add: fits_def from_buffer_def constructor_def)
  have i: "(0 :: nat) < length [321, 66 :: 16 word]"
    by simp
  have c: "charCodeAt [321, 66] 0 = 321"
    by (simp add: charCodeAt_def)
  have e: "fst (writeByteString (setWriterIndex (from_buffer [0, 0, 0, 0, 0]) 0) [321, 66])
     = Inl RangeError"
    by code_simp
  show ?thesis
    using f i c e string_bytes_mod_256 [of "from_buffer [0, 0, 0, 0, 0]" 0 0 "[321, 66]"]
    by simp
qed

section \<open>Cursors below zero\<close>

lemma writeLoop_writerIndex: "writerIndex b \<le> writerIndex (snd (writeLoop b s i))"
proof (induction b s i rule: writeLoop.induct)
  case (1 b s i)
  show ?case
  proof (cases "i < length s")
    case False
    then show ?thesis by (simp add: writeLoop_done)
  next
    case more: True
    show ?thesis
    proof (cases "fits b (writerIndex b) 1")
      case False
      with more show ?thesis by (simp add: writeLoop_fail)
    next
      case True
      let ?b1 = "snd (writeByteSigned b (charCodeAt s i))"
      have "writerIndex ?b1 \<le> writerIndex (snd (writeLoop ?b1 s (i + 1)))"
        using more writeByteSigned_ok [OF True, of "charCodeAt s i", symmetric]
        by (rule "1.IH") simp
      moreover have "writerIndex ?b1 = writerIndex b + 1"
        using True by (simp add: writeByteSigned_state)
      ultimately show ?thesis
        using more True by (simp add: writeLoop_step)
    qed
  qed
qed

lemma writeByteString_writerIndex:
  "writerIndex b \<le> writerIndex (snd (writeByteString b s))"
proof (cases "fits b (writerIndex b) 4")
  case True
  let ?b1 = "snd (writeInt b (int (length s)))"
  have "writeByteString b s = writeLoop ?b1 s 0"
    using True
    by (simp add: writeByteString_def writeInt_def setInt32_def SetViewValue_def fits_def)
  moreover have "writerIndex ?b1 = writerIndex b + 4"
    using True by (simp add: writeInt_state)
  ultimately show ?thesis
    using writeLoop_writerIndex [of ?b1 s 0] by simp
next
  case False
  then show ?thesis
    by (simp add: writeByteString_def writeInt_fail)
qed

lemma readByteString_readerIndex:
  "readerIndex (snd (readByteString b)) =
     (case getInt32 (data b) (readerIndex b) of
        Inl e \<Rightarrow> readerIndex b + 4
      | Inr n \<Rightarrow>
          (case readLoop (b\<lparr>readerIndex := readerIndex b + 4\<rparr>) n 0 [] of
             Inl e \<Rightarrow> readerIndex b + 4
           | Inr s \<Rightarrow> readerIndex b + 4 + n))"
  by (simp add: readByteString_def readInt_eq split: sum.splits)

lemma perform_keeps_nonneg:
  assumes "cursors_nonneg b" and "keeps_nonneg c b"
  shows "cursors_nonneg (perform enc dec c b)"
proof (cases c)
  case ReadByteString
  have "0 \<le> readerIndex (snd (readByteString b))"
    using assms ReadByteString
    by (simp add: readByteString_readerIndex cursors_nonneg_def split: sum.splits)
  then show ?thesis
    using assms(1) ReadByteString
    by (simp add: cursors_nonneg_def readByteString_writerIndex)
next
  case (WriteByteString s)
  then show ?thesis
    using assms(1) writeByteString_writerIndex [of b s]
    by (simp add: cursors_nonneg_def writeByteString_readerIndex)
qed (use assms in \<open>simp_all add: cursors_nonneg_def writeBool_state writeByteSigned_state
      writeByteUnsigned_state writeShort_state writeFloat_state writeInt_state writeLong_state
      readBool_state readByteSigned_state readByteUnsigned_state readShort_state
      readFloat_state readInt_state readLong_state setReaderIndex_def setWriterIndex_def
      skipReader_def skipWriter_def\<close>)

lemma run_keeps_nonneg:
  "cursors_nonneg b \<Longrightarrow> admissible enc dec cs b \<Longrightarrow> cursors_nonneg (run enc dec cs b)"
proof (induction cs arbitrary: b)
  case Nil
  then show ?case by simp
next
  case (Cons c cs)
  then show ?case
    by (simp add: perform_keeps_nonneg)
qed

text \<open>
  Claim C4, as amended. \<open>0 \<le> readerIndex\<close> and \<open>0 \<le> writerIndex\<close> hold in every
  state reached from a newly constructed buffer by a sequence of public calls in which
  every \<open>setReaderIndex(i)\<close> and \<open>setWriterIndex(i)\<close> has \<open>0 \<le> i\<close>, every
  \<open>skipReader(n)\<close> and \<open>skipWriter(n)\<close> has \<open>0 \<le> cursor + n\<close>, every
  \<open>readByteString\<close> that reads a length \<open>N\<close> has \<open>0 \<le> readerIndex + 4 + N\<close>,
  and the numbers the calls compute with (the cursors they leave, the arguments of the
  skips) are safe integers.

  As stated, for arbitrary \<open>i\<close> and \<open>n\<close>, the claim fails: the setters and the skips
  store what they are given (\<open>cursors_nonneg_reachable_counterexample\<close> below).
\<close>

theorem cursors_nonneg_reachable:
  assumes "admissible enc dec cs (constructor arr)"
  shows "cursors_nonneg (run enc dec cs (constructor arr))"
proof -
  have "cursors_nonneg (constructor arr)"
    by (simp add: cursors_nonneg_def constructor_def)
  then show ?thesis
    using assms by (rule run_keeps_nonneg)
qed

theorem cursors_nonneg_reachable_counterexample:
  "\<not> cursors_nonneg (run (\<lambda>f. f) (\<lambda>u. u) [SetReaderIndex (- 1)]
       (constructor \<lparr>buffer = [0, 0, 0, 0], byteOffset = 0, byteLength = 4\<rparr>)) \<and>
   \<not> cursors_nonneg (run (\<lambda>f. f) (\<lambda>u. u) [SkipWriter (- 1)]
       (constructor \<lparr>buffer = [0, 0, 0, 0], byteOffset = 0, byteLength = 4\<rparr>))"
  by (simp add: cursors_nonneg_def constructor_def setReaderIndex_def skipWriter_def)

theorem cursors_nonneg_reachable_witness:
  "admissible (\<lambda>f. f) (\<lambda>u. u)
     [WriteByteString [72, 105], SkipReader 6, SkipReader (- 6), ReadByteString,
      SetWriterIndex 0, WriteInt (- 2), SetReaderIndex 0, ReadByteString, ReadLong]
     (constructor \<lparr>buffer = [0, 0, 0, 0, 0, 0, 0, 0], byteOffset = 0, byteLength = 8\<rparr>) \<and>
   cursors_nonneg (run (\<lambda>f. f) (\<lambda>u. u)
     [WriteByteString [72, 105], SkipReader 6, SkipReader (- 6), ReadByteString,
      SetWriterIndex 0, WriteInt (- 2), SetReaderIndex 0, ReadByteString, ReadLong]
     (constructor \<lparr>buffer = [0, 0, 0, 0, 0, 0, 0, 0], byteOffset = 0, byteLength = 8\<rparr>))"
proof -
  have h: "admissible (\<lambda>f. f) (\<lambda>u. u)
     [WriteByteString [72, 105], SkipReader 6, SkipReader (- 6), ReadByteString,
      SetWriterIndex 0, WriteInt (- 2), SetReaderIndex 0, ReadByteString, ReadLong]
     (constructor \<lparr>buffer = [0, 0, 0, 0, 0, 0, 0, 0], byteOffset = 0, byteLength = 8\<rparr>)"
    by code_simp
  show ?thesis
    using h cursors_nonneg_reachable [OF h] by simp
qed

end
